theory Spec2Isabelle
  imports Main "HOL-Library.Word"
begin

unbundle bit_operations_syntax

section \<open>Base58 codec of \<open>Sources/CCrypto/base58.c\<close>\<close>

text \<open>
  Conventions of the embedding.
  \<^item> A byte (\<open>uint8_t\<close>, \<open>unsigned char\<close>) is an \<open>8 word\<close>; a chunk of the decoder's
    accumulator (\<open>b58_almostmaxint_t\<close>, \<open>uint32_t\<close>) is a \<open>32 word\<close>; the
    multiply-accumulate register (\<open>b58_maxint_t\<close>, \<open>uint64_t\<close>) is a \<open>64 word\<close>.
  \<^item> A character of a C string is a HOL \<open>char\<close> (eight bits); \<open>of_char\<close> reads it as
    the \<open>unsigned char\<close> value. A C string argument is the list of characters found
    at the pointer; \<open>strlen\<close> stops at the first NUL (or at the end of the list).
  \<^item> \<open>size_t\<close> values are lengths of and indices into objects that exist in memory;
    they are \<open>nat\<close>. The decoder's \<open>unsigned zerocount\<close> is 32 bits wide while the
    index it runs with is a \<open>size_t\<close>: its value is read from a \<open>32 word\<close>, so it is
    the number of increments modulo \<open>2 ^ 32\<close>. The \<open>int carry\<close> of the encoder never is
    negative and never exceeds \<open>255 + 256 * 255\<close>, so it is a \<open>nat\<close> as well and C's
    \<open>/\<close> and \<open>%\<close> are \<open>div\<close> and \<open>mod\<close>.
  \<^item> A caller's buffer is passed as the list of its current contents and is returned
    with the bytes the function has stored; an in/out \<open>size_t *\<close> is passed as a value
    and returned.
\<close>

type_synonym uint8_t = "8 word"
type_synonym b58_almostmaxint_t = "32 word"
type_synonym b58_maxint_t = "64 word"

subsection \<open>Constant tables\<close>

definition b58digits_ordered :: string where
  "b58digits_ordered = ''123456789ABCDEFGHJKLMNPQRSTUVWXYZabcdefghijkmnopqrstuvwxyz''"

definition b58digits_map :: "int list" where
  "b58digits_map =
   [-1, -1, -1, -1, -1, -1, -1, -1, -1, -1, -1, -1, -1, -1, -1, -1, -1, -1, -1,
    -1, -1, -1, -1, -1, -1, -1, -1, -1, -1, -1, -1, -1, -1, -1, -1, -1, -1, -1,
    -1, -1, -1, -1, -1, -1, -1, -1, -1, -1, -1, 0,  1,  2,  3,  4,  5,  6,  7,
    8,  -1, -1, -1, -1, -1, -1, -1, 9,  10, 11, 12, 13, 14, 15, 16, -1, 17, 18,
    19, 20, 21, -1, 22, 23, 24, 25, 26, 27, 28, 29, 30, 31, 32, -1, -1, -1, -1,
    -1, -1, 33, 34, 35, 36, 37, 38, 39, 40, 41, 42, 43, -1, 44, 45, 46, 47, 48,
    49, 50, 51, 52, 53, 54, 55, 56, 57, -1, -1, -1, -1, -1]"

definition b58_almostmaxint_bits :: nat where
  "b58_almostmaxint_bits = 4 * 8"

definition b58_almostmaxint_mask :: b58_almostmaxint_t where
  "b58_almostmaxint_mask = ucast (push_bit b58_almostmaxint_bits (1 :: b58_maxint_t) - 1)"

subsection \<open>The decoder \<open>b58tobin\<close>\<close>

definition strlen :: "string \<Rightarrow> nat" where
  "strlen s = length (takeWhile (\<lambda>ch. ch \<noteq> CHR 0x00) s)"

text \<open>\<open>b58u[i]\<close>: the character read as an \<open>unsigned char\<close>.\<close>

definition b58u :: "char \<Rightarrow> nat" where
  "b58u ch = of_char ch"

definition outisz :: "nat \<Rightarrow> nat" where
  "outisz binsz = (binsz + 4 - 1) div 4"

definition bytesleft :: "nat \<Rightarrow> nat" where
  "bytesleft binsz = binsz mod 4"

definition zeromask :: "nat \<Rightarrow> b58_almostmaxint_t" where
  "zeromask binsz =
     (if bytesleft binsz \<noteq> 0 then push_bit (bytesleft binsz * 8) b58_almostmaxint_mask else 0)"

text \<open>
  The inner loop \<open>for (j = outisz; j--;)\<close>: one multiplication of the accumulator by 58
  with the digit added, from the least significant chunk (the last) to the first.
  It returns the accumulator and the carry left in \<open>c\<close>.
\<close>

fun b58tobin_muladd ::
  "nat \<Rightarrow> b58_almostmaxint_t list \<Rightarrow> b58_almostmaxint_t
     \<Rightarrow> b58_almostmaxint_t list \<times> b58_almostmaxint_t" where
  "b58tobin_muladd 0 outi c = (outi, c)"
| "b58tobin_muladd (Suc j) outi c =
     (let t = (ucast (outi ! j) :: b58_maxint_t) * 58 + ucast c;
          c' = (ucast (drop_bit b58_almostmaxint_bits t) :: b58_almostmaxint_t);
          outi' = outi[j := ucast (t AND ucast b58_almostmaxint_mask)]
      in b58tobin_muladd j outi' c')"

text \<open>
  The loop over the characters after the leading \<open>'1'\<close>s. \<open>None\<close> is one of the four
  \<open>return false\<close> of its body.
\<close>

fun b58tobin_digits ::
  "nat \<Rightarrow> string \<Rightarrow> b58_almostmaxint_t list \<Rightarrow> b58_almostmaxint_t list option" where
  "b58tobin_digits binsz [] outi = Some outi"
| "b58tobin_digits binsz (ch # rest) outi =
     (if b58u ch AND 0x80 \<noteq> 0 then None
      else if b58digits_map ! b58u ch = -1 then None
      else
        let c = (word_of_int (b58digits_map ! b58u ch) :: b58_almostmaxint_t);
            (outi', c') = b58tobin_muladd (outisz binsz) outi c
        in if c' \<noteq> 0 then None
           else if outi' ! 0 AND zeromask binsz \<noteq> 0 then None
           else b58tobin_digits binsz rest outi')"

text \<open>
  The bytes \<open>(w >> (8 * (i - 1))) & 0xff\<close> for \<open>i = n, ..., 1\<close>: the low \<open>n\<close> bytes of a
  chunk, most significant first.
\<close>

definition chunk_bytes :: "nat \<Rightarrow> b58_almostmaxint_t \<Rightarrow> uint8_t list" where
  "chunk_bytes n w = map (\<lambda>i. ucast (drop_bit (8 * (i - 1)) w AND 0xff)) (rev [1..<Suc n])"

definition b58tobin_serialize :: "nat \<Rightarrow> b58_almostmaxint_t list \<Rightarrow> uint8_t list" where
  "b58tobin_serialize binsz outi =
     (if bytesleft binsz \<noteq> 0
      then chunk_bytes (bytesleft binsz) (outi ! 0)
           @ concat (map (\<lambda>j. chunk_bytes 4 (outi ! j)) [1..<outisz binsz])
      else concat (map (\<lambda>j. chunk_bytes 4 (outi ! j)) [0..<outisz binsz]))"

text \<open>
  The last loop, over \<open>binu[i]\<close> for \<open>i < binsz\<close>: the bytes not yet visited, the index
  \<open>i\<close>, \<open>zerocount\<close> and the current \<open>*binszp\<close>. It returns \<open>False\<close> for the
  \<open>return false\<close> in its body, with \<open>*binszp\<close> as it is then.
\<close>

fun b58tobin_count :: "uint8_t list \<Rightarrow> nat \<Rightarrow> nat \<Rightarrow> nat \<Rightarrow> bool \<times> nat" where
  "b58tobin_count [] i zerocount sz = (True, sz)"
| "b58tobin_count (b # bs) i zerocount sz =
     (if b \<noteq> 0 then (if zerocount > i then (False, sz) else (True, sz))
      else b58tobin_count bs (Suc i) zerocount (sz - 1))"

text \<open>The characters of the C string at \<open>b58\<close>: the \<open>strlen b58\<close> characters before the NUL.\<close>

definition cstring :: "string \<Rightarrow> string" where
  "cstring b58 = take (strlen b58) b58"

text \<open>
  The first loop, \<open>for (i = 0; i < b58sz && b58u[i] == '1'; ++i) ++zerocount\<close>.
  \<open>leading_ones\<close> is the index \<open>i\<close> after it, a \<open>size_t\<close>: the number of leading \<open>'1'\<close>
  characters. \<open>b58tobin_zerocount\<close> is the value of the \<open>unsigned zerocount\<close> after it:
  incremented as often, but in 32 bits.
\<close>

definition leading_ones :: "string \<Rightarrow> nat" where
  "leading_ones s = length (takeWhile (\<lambda>ch. ch = CHR ''1'') s)"

definition b58tobin_zerocount :: "string \<Rightarrow> nat" where
  "b58tobin_zerocount s = unat (word_of_nat (leading_ones s) :: 32 word)"

text \<open>
  \<open>b58tobin bin binsz b58\<close>: \<open>bin\<close> is the caller's buffer (of at least \<open>binsz\<close> bytes),
  \<open>binsz\<close> the value of \<open>*binszp\<close> at the call. The result is the returned \<open>bool\<close>,
  the buffer and \<open>*binszp\<close> at the return.
\<close>

definition b58tobin :: "uint8_t list \<Rightarrow> nat \<Rightarrow> string \<Rightarrow> bool \<times> uint8_t list \<times> nat" where
  "b58tobin bin binsz b58 =
     (if binsz = 0 then (False, bin, binsz)
      else
        let i = leading_ones (cstring b58);
            zerocount = b58tobin_zerocount (cstring b58);
            outi0 = replicate (outisz binsz) (0 :: b58_almostmaxint_t)
        in case b58tobin_digits binsz (drop i (cstring b58)) outi0 of
             None \<Rightarrow> (False, bin, binsz)
           | Some outi \<Rightarrow>
               (let bin' = b58tobin_serialize binsz outi @ drop binsz bin;
                    (ok, sz) = b58tobin_count (take binsz bin') 0 zerocount binsz
                in if ok then (True, bin', sz + zerocount) else (False, bin', sz)))"

subsection \<open>The encoder \<open>b58enc\<close>\<close>

text \<open>
  The inner loop \<open>for (carry = bin[i], j = size - 1; (j > high) || carry; --j)\<close> with
  its \<open>break\<close> at \<open>j = 0\<close>. It returns the buffer and the value of \<open>j\<close> at the exit.
\<close>

function b58enc_carry :: "nat \<Rightarrow> nat \<Rightarrow> nat \<Rightarrow> uint8_t list \<Rightarrow> uint8_t list \<times> nat" where
  "b58enc_carry high j carry buf =
     (if j > high \<or> carry \<noteq> 0 then
        let carry1 = carry + 256 * unat (buf ! j);
            buf' = buf[j := of_nat (carry1 mod 58)];
            carry2 = carry1 div 58
        in if j = 0 then (buf', j) else b58enc_carry high (j - 1) carry2 buf'
      else (buf, j))"
  by pat_completeness auto
termination
  by (relation "measure (\<lambda>(high, j, carry, buf). j)") auto

declare b58enc_carry.simps [simp del]

text \<open>
  The outer loop \<open>for (i = zcount, high = size - 1; i < binsz; ++i, high = j)\<close>: the
  bytes of the input from index \<open>i\<close> on, \<open>high\<close> and the buffer (\<open>size\<close> is its length).
\<close>

fun b58enc_convert :: "uint8_t list \<Rightarrow> nat \<Rightarrow> uint8_t list \<Rightarrow> uint8_t list" where
  "b58enc_convert [] high buf = buf"
| "b58enc_convert (b # bs) high buf =
     (let (buf', j) = b58enc_carry high (length buf - 1) (unat b) buf
      in b58enc_convert bs j buf')"

text \<open>
  \<open>b58enc b58 b58sz data\<close>: \<open>b58\<close> is the caller's character buffer, \<open>b58sz\<close> the value
  of \<open>*b58sz\<close> at the call, \<open>data\<close> the \<open>binsz\<close> input bytes. The result is the
  returned \<open>bool\<close>, the buffer and \<open>*b58sz\<close> at the return.
\<close>

definition b58enc :: "string \<Rightarrow> nat \<Rightarrow> uint8_t list \<Rightarrow> bool \<times> string \<times> nat" where
  "b58enc b58 b58sz data =
     (let binsz = length data;
          zcount = length (takeWhile (\<lambda>b. b = 0) data);
          size = (binsz - zcount) * 138 div 100 + 1;
          buf = b58enc_convert (drop zcount data) (size - 1) (replicate size 0);
          j = length (takeWhile (\<lambda>d. d = 0) buf)
      in if b58sz \<le> zcount + size - j then (False, b58, zcount + size - j + 1)
         else
           let digits = map (\<lambda>k. b58digits_ordered ! unat (buf ! k)) [j..<size];
               i = zcount + length digits
           in (True,
               replicate zcount (CHR ''1'') @ digits @ [CHR 0x00] @ drop (i + 1) b58,
               i + 1))"

subsection \<open>The wrappers\<close>

definition base58_encode :: "uint8_t list \<Rightarrow> string \<Rightarrow> nat \<Rightarrow> nat \<times> string" where
  "base58_encode data str strsize =
     (let (ok, str', res) = b58enc str strsize data
      in if \<not> ok then (0, str') else (res, str'))"

text \<open>
  \<open>base58_decode\<close> copies \<open>res\<close> bytes from \<open>d + datalen - res\<close>. When \<open>res\<close> exceeds
  \<open>datalen\<close> that address is before the array \<open>d\<close>: the model returns \<open>OutOfBounds\<close>
  there instead of a value. Otherwise the result is the returned length and the
  caller's \<open>data\<close>.
\<close>

datatype fault = OutOfBounds

definition base58_decode :: "string \<Rightarrow> uint8_t list \<Rightarrow> nat \<Rightarrow> fault + nat \<times> uint8_t list" where
  "base58_decode str data datalen =
     (let (ok, d, res) = b58tobin (replicate datalen 0) datalen str
      in if \<not> ok then Inr (0, data)
         else if res > datalen then Inl OutOfBounds
         else Inr (res, take res (drop (datalen - res) d) @ drop res data))"

subsection \<open>Numbers denoted by digit sequences\<close>

text \<open>
  The number that a sequence of digits denotes in base \<open>B\<close>, most significant digit
  first; the magnitude of a Base58 string is the number its characters denote through
  the lookup table.
\<close>

definition digits_val :: "nat \<Rightarrow> nat list \<Rightarrow> nat" where
  "digits_val B ds = foldl (\<lambda>v d. v * B + d) 0 ds"

definition b58_digit :: "char \<Rightarrow> nat" where
  "b58_digit ch = nat (b58digits_map ! b58u ch)"

definition b58_magnitude :: "string \<Rightarrow> nat" where
  "b58_magnitude s = digits_val 58 (map b58_digit s)"

text \<open>The number after the characters of \<open>s\<close> have been added, as digits, to \<open>v\<close>.\<close>

definition b58_accumulate :: "nat \<Rightarrow> string \<Rightarrow> nat" where
  "b58_accumulate v s = foldl (\<lambda>v ch. v * 58 + b58_digit ch) v s"

definition bytes_val :: "uint8_t list \<Rightarrow> nat" where
  "bytes_val bs = digits_val 256 (map unat bs)"

text \<open>The number held by the encoder's buffer: one base-58 digit in each byte.\<close>

definition buf_val :: "uint8_t list \<Rightarrow> nat" where
  "buf_val buf = digits_val 58 (map unat buf)"

text \<open>
  The encoder's buffer after the conversion loop, and the characters that \<open>b58enc\<close>
  stores before the terminator (lemma \<open>b58enc_outcome\<close> below relates them to
  \<open>b58enc\<close>).
\<close>

definition b58enc_buf :: "uint8_t list \<Rightarrow> uint8_t list" where
  "b58enc_buf data =
     (let zcount = length (takeWhile (\<lambda>b. b = 0) data);
          size = (length data - zcount) * 138 div 100 + 1
      in b58enc_convert (drop zcount data) (size - 1) (replicate size 0))"

definition b58enc_string :: "uint8_t list \<Rightarrow> string" where
  "b58enc_string data =
     replicate (length (takeWhile (\<lambda>b. b = 0) data)) (CHR ''1'')
     @ map (\<lambda>d. b58digits_ordered ! unat d) (dropWhile (\<lambda>d. d = 0) (b58enc_buf data))"

text \<open>The number held by the decoder's accumulator: one base-\<open>2\<^sup>3\<^sup>2\<close> digit in each chunk.\<close>

definition outi_val :: "b58_almostmaxint_t list \<Rightarrow> nat" where
  "outi_val outi = digits_val 4294967296 (map unat outi)"

lemma digits_val_Nil [simp]: "digits_val B [] = 0"
  by (simp add: digits_val_def)

lemma digits_val_snoc [simp]: "digits_val B (ds @ [d]) = digits_val B ds * B + d"
  by (simp add: digits_val_def)

lemma digits_val_append:
  "digits_val B (xs @ ys) = digits_val B xs * B ^ length ys + digits_val B ys"
proof (induction ys rule: rev_induct)
  case Nil
  show ?case by simp
next
  case (snoc y ys)
  have "digits_val B (xs @ ys @ [y]) = digits_val B ((xs @ ys) @ [y])" by simp
  also have "\<dots> = digits_val B (xs @ ys) * B + y" by (rule digits_val_snoc)
  finally show ?case by (simp add: snoc.IH algebra_simps)
qed

lemma digits_val_Cons: "digits_val B (d # ds) = d * B ^ length ds + digits_val B ds"
  using digits_val_append [of B "[d]" ds] by (simp add: digits_val_def)

lemma digits_val_replicate0 [simp]: "digits_val B (replicate n 0) = 0"
  by (induction n) (simp_all add: digits_val_Cons)

lemma digits_val_zeros: "\<forall>d\<in>set ds. d = 0 \<Longrightarrow> digits_val B ds = 0"
  by (induction ds) (simp_all add: digits_val_Cons)

lemma digits_val_lt:
  "\<forall>d\<in>set ds. d < B \<Longrightarrow> digits_val B ds < B ^ length ds"
proof (induction ds rule: rev_induct)
  case Nil
  show ?case by simp
next
  case (snoc d ds)
  then have v: "digits_val B ds < B ^ length ds" and d: "d < B" by simp_all
  from v have "digits_val B ds + 1 \<le> B ^ length ds" by simp
  then have "(digits_val B ds + 1) * B \<le> B ^ length ds * B" by (rule mult_le_mono1)
  with d show ?case by (simp add: algebra_simps)
qed

lemma div_mult_add_less: "a < P \<Longrightarrow> (x * P + a) div P = (x::nat)"
  by auto

lemma digits_val_inj:
  "length xs = length ys \<Longrightarrow> \<forall>d\<in>set xs. d < B \<Longrightarrow> \<forall>d\<in>set ys. d < B \<Longrightarrow>
   digits_val B xs = digits_val B ys \<Longrightarrow> xs = ys"
proof (induction xs ys rule: list_induct2)
  case Nil
  show ?case by simp
next
  case (Cons x xs y ys)
  let ?P = "B ^ length xs"
  have lx: "digits_val B xs < ?P" using Cons.prems(1) by (simp add: digits_val_lt)
  have ly: "digits_val B ys < ?P" using Cons.prems(2) Cons.hyps by (simp add: digits_val_lt)
  have e: "x * ?P + digits_val B xs = y * ?P + digits_val B ys"
    using Cons.prems(3) Cons.hyps by (simp add: digits_val_Cons)
  have dx: "(x * ?P + digits_val B xs) div ?P = x" using lx by (rule div_mult_add_less)
  have dy: "(y * ?P + digits_val B ys) div ?P = y" using ly by (rule div_mult_add_less)
  have xy: "x = y" using dx dy by (simp only: e)
  with e have "digits_val B xs = digits_val B ys" by simp
  with Cons xy show ?case by simp
qed



subsection \<open>The tables\<close>

lemma length_b58digits_ordered: "length b58digits_ordered = 58"
  by (simp add: b58digits_ordered_def)

lemma length_b58digits_map: "length b58digits_map = 128"
  by (simp add: b58digits_map_def)

lemma map_alphabet_table:
  "map (\<lambda>i. b58digits_map ! b58u (b58digits_ordered ! i)) [0..<58] = map int [0..<58]"
  by code_simp

lemma alphabet_lookup: "i < 58 \<Longrightarrow> b58digits_map ! b58u (b58digits_ordered ! i) = int i"
proof -
  assume i: "i < 58"
  have "map (\<lambda>i. b58digits_map ! b58u (b58digits_ordered ! i)) [0..<58] ! i = map int [0..<58] ! i"
    by (simp only: map_alphabet_table)
  with i show ?thesis by simp
qed

lemma table_entries_all:
  "list_all (\<lambda>v. b58digits_map ! v = -1 \<and> v \<notin> set (map b58u b58digits_ordered)
      \<or> 0 \<le> b58digits_map ! v \<and> b58digits_map ! v < 58
        \<and> b58u (b58digits_ordered ! nat (b58digits_map ! v)) = v) [0..<128]"
  by code_simp

lemma table_entry:
  assumes "v < 128"
  shows "b58digits_map ! v = -1 \<and> v \<notin> b58u ` set b58digits_ordered
      \<or> 0 \<le> b58digits_map ! v \<and> b58digits_map ! v < 58
        \<and> b58u (b58digits_ordered ! nat (b58digits_map ! v)) = v"
proof -
  from assms have "v \<in> set [0..<128]" by simp
  with table_entries_all show ?thesis
    by (simp only: list_all_iff set_map)
qed

lemma alphabet_chars_all:
  "list_all (\<lambda>ch. b58u ch < 128 \<and> ch \<noteq> CHR 0x00) b58digits_ordered"
  by code_simp

lemma alphabet_char: "ch \<in> set b58digits_ordered \<Longrightarrow> b58u ch < 128 \<and> ch \<noteq> CHR 0x00"
  using alphabet_chars_all unfolding list_all_iff by blast

lemma distinct_b58digits_ordered: "distinct b58digits_ordered"
  by code_simp

lemma alphabet_nth_mem: "i < 58 \<Longrightarrow> b58digits_ordered ! i \<in> set b58digits_ordered"
  by (simp add: length_b58digits_ordered)

lemma b58digits_ordered_0: "b58digits_ordered ! 0 = CHR ''1''"
  by (simp add: b58digits_ordered_def)

lemma b58u_less_256: "b58u ch < 256"
  unfolding b58u_def by (metis of_char_mod_256 mod_less_divisor zero_less_numeral)

lemma b58u_inj: "b58u a = b58u b \<Longrightarrow> a = b"
  by (simp add: b58u_def)

lemma high_bit_test: "n < 256 \<Longrightarrow> (n AND (0x80::nat) \<noteq> 0) = (128 \<le> n)"
proof -
  assume n: "n < 256"
  have a: "(n AND (2::nat) ^ 7 = 0) = (\<not> bit n 7)"
    by (rule and_exp_eq_0_iff_not_bit)
  have b: "bit n 7 = odd (n div 128)"
    by (simp add: bit_iff_odd)
  have c: "odd (n div 128) = (128 \<le> n)"
  proof (cases "128 \<le> n")
    case True
    with n have "n div 128 = 1" by arith
    with True show ?thesis by simp
  next
    case False
    then show ?thesis by simp
  qed
  from a b c show ?thesis by simp
qed

lemma table_non_alphabet:
  assumes v: "v < 128" and n: "v \<notin> b58u ` set b58digits_ordered"
  shows "b58digits_map ! v = -1"
proof (rule ccontr)
  assume "b58digits_map ! v \<noteq> -1"
  with table_entry [OF v]
  have r: "0 \<le> b58digits_map ! v" "b58digits_map ! v < 58"
    and e: "b58u (b58digits_ordered ! nat (b58digits_map ! v)) = v"
    by auto
  from r have "nat (b58digits_map ! v) < 58" by simp
  then have "b58digits_ordered ! nat (b58digits_map ! v) \<in> set b58digits_ordered"
    by (rule alphabet_nth_mem)
  then have "b58u (b58digits_ordered ! nat (b58digits_map ! v)) \<in> b58u ` set b58digits_ordered"
    by (rule imageI)
  with e n show False by simp
qed

subsection \<open>The byte count on success\<close>

text \<open>
  C4 at the input \<open>"11"\<close> with a buffer of one byte: the two characters are leading
  \<open>'1'\<close>s, the accumulator stays zero, the last loop finds no byte that is not zero and
  so never compares \<open>zerocount\<close> with the index; \<open>*binszp\<close> goes down to 0 and
  \<open>zerocount = 2\<close> is added. \<open>b58tobin\<close> returns true with \<open>*binszp = 2\<close>, which is
  more than the capacity 1, and \<open>base58_decode\<close> then reads before its array.
\<close>

theorem b58tobin_count_exceeds_capacity:
  "b58tobin [0] 1 ''11'' = (True, [0], 2) \<and> \<not> (2::nat) \<le> 1
   \<and> base58_decode ''11'' [0] 1 = Inl OutOfBounds"
  by code_simp

subsection \<open>Characters outside the alphabet\<close>

lemma one_in_alphabet: "CHR ''1'' \<in> set b58digits_ordered"
  using alphabet_nth_mem [of 0] by (simp add: b58digits_ordered_0)

lemma invalid_char_tests:
  assumes "ch \<notin> set b58digits_ordered"
  shows "b58u ch AND 0x80 \<noteq> 0 \<or> b58digits_map ! b58u ch = -1"
proof (cases "128 \<le> b58u ch")
  case True
  then show ?thesis using high_bit_test [OF b58u_less_256, of ch] by simp
next
  case False
  then have v: "b58u ch < 128" by simp
  have "b58u ch \<notin> b58u ` set b58digits_ordered"
  proof
    assume "b58u ch \<in> b58u ` set b58digits_ordered"
    then obtain a where "a \<in> set b58digits_ordered" and "b58u ch = b58u a" by blast
    with assms show False by (auto dest: b58u_inj)
  qed
  with v show ?thesis by (simp add: table_non_alphabet)
qed

lemma b58tobin_digits_invalid:
  "ch \<in> set s \<Longrightarrow> ch \<notin> set b58digits_ordered \<Longrightarrow> b58tobin_digits binsz s outi = None"
proof (induction s arbitrary: outi)
  case Nil
  then show ?case by simp
next
  case (Cons a s)
  show ?case
  proof (cases "a = ch")
    case True
    with invalid_char_tests [OF Cons.prems(2)] show ?thesis by auto
  next
    case False
    with Cons.prems have "ch \<in> set s" by simp
    then have "\<And>outi'. b58tobin_digits binsz s outi' = None"
      using Cons.IH Cons.prems(2) by blast
    then show ?thesis by (simp add: Let_def split: prod.splits)
  qed
qed

lemma drop_leading_ones: "drop (leading_ones s) s = dropWhile (\<lambda>ch. ch = CHR ''1'') s"
  by (simp add: leading_ones_def dropWhile_eq_drop)

lemma invalid_after_leading_ones:
  assumes "ch \<in> set s" and "ch \<notin> set b58digits_ordered"
  shows "ch \<in> set (drop (leading_ones s) s)"
proof -
  let ?P = "\<lambda>ch. ch = CHR ''1''"
  have "set s = set (takeWhile ?P s) \<union> set (dropWhile ?P s)"
    by (metis set_append takeWhile_dropWhile_id)
  moreover have "ch \<notin> set (takeWhile ?P s)"
  proof
    assume "ch \<in> set (takeWhile ?P s)"
    then have "ch = CHR ''1''" by (rule set_takeWhileD [THEN conjunct2])
    with assms(2) one_in_alphabet show False by simp
  qed
  ultimately show ?thesis using assms(1) by (simp add: drop_leading_ones)
qed

lemma b58tobin_invalid:
  assumes "ch \<in> set (cstring b58)" and "ch \<notin> set b58digits_ordered"
  shows "b58tobin bin binsz b58 = (False, bin, binsz)"
proof (cases "binsz = 0")
  case True
  then show ?thesis by (simp add: b58tobin_def)
next
  case False
  have "b58tobin_digits binsz (drop (leading_ones (cstring b58)) (cstring b58))
          (replicate (outisz binsz) 0) = None"
    using assms by (intro b58tobin_digits_invalid invalid_after_leading_ones)
  with False show ?thesis by (simp add: b58tobin_def)
qed

text \<open>
  C2. When the C string at \<open>b58\<close> contains a character that is not one of the 58 of the
  alphabet (a byte with its high bit set is such a character), \<open>b58tobin\<close> returns
  false, and it does so from inside the loop over the characters: nothing has been
  stored then, the buffer \<open>bin\<close> and \<open>*binszp\<close> are as the caller passed them.
\<close>

theorem b58tobin_rejects_invalid_character:
  assumes "ch \<in> set (cstring b58)" and "ch \<notin> set b58digits_ordered"
  shows "b58tobin bin binsz b58 = (False, bin, binsz)"
proof (cases "binsz = 0")
  case True
  then show ?thesis by (simp add: b58tobin_def)
next
  case False
  have "b58tobin_digits binsz (drop (leading_ones (cstring b58)) (cstring b58))
          (replicate (outisz binsz) 0) = None"
    using assms by (intro b58tobin_digits_invalid invalid_after_leading_ones)
  with False show ?thesis by (simp add: b58tobin_def)
qed

theorem b58tobin_rejects_invalid_character_witness:
  "CHR 0xE9 \<in> set (cstring [CHR ''2'', CHR 0xE9, CHR ''3''])
   \<and> CHR 0xE9 \<notin> set b58digits_ordered
   \<and> b58tobin [7, 7] 2 [CHR ''2'', CHR 0xE9, CHR ''3''] = (False, [7, 7], 2)"
proof -
  have a: "CHR 0xE9 \<in> set (cstring [CHR ''2'', CHR 0xE9, CHR ''3''])" by code_simp
  have b: "CHR 0xE9 \<notin> set b58digits_ordered" by code_simp
  from a b b58tobin_rejects_invalid_character [OF a b, of "[7, 7]" 2] show ?thesis by simp
qed

subsection \<open>The lookup table and the alphabet\<close>

text \<open>
  C9, as the code has it. The table \<open>b58digits_map\<close> has 128 entries, one for each
  byte value below 128. It inverts the alphabet: the character at position \<open>i\<close> of
  \<open>b58digits_ordered\<close> is mapped to \<open>i\<close>, for every \<open>i\<close> from 0 to 57, and every
  byte value below 128 that is not a character of the alphabet is mapped to \<open>-1\<close>.
  Byte values from 128 on have no entry: for them the test \<open>b58u[i] & 0x80\<close> of
  \<open>b58tobin\<close> is not zero, the loop over the characters returns false on such a
  character, whatever the accumulator, the buffer size and the characters after it,
  and so \<open>b58tobin\<close> returns false, with the buffer and \<open>*binszp\<close> as they were passed,
  on every C string that contains such a character.
\<close>

theorem b58digits_map_inverts_alphabet:
  "length b58digits_map = 128
   \<and> (\<forall>i<58. b58digits_map ! b58u (b58digits_ordered ! i) = int i)
   \<and> (\<forall>v<128. v \<notin> b58u ` set b58digits_ordered \<longrightarrow> b58digits_map ! v = -1)
   \<and> (\<forall>ch. 128 \<le> b58u ch \<longrightarrow>
         b58u ch AND 0x80 \<noteq> 0
         \<and> (\<forall>binsz rest outi. b58tobin_digits binsz (ch # rest) outi = None)
         \<and> (\<forall>bin binsz b58. ch \<in> set (cstring b58) \<longrightarrow>
               b58tobin bin binsz b58 = (False, bin, binsz)))"
proof (intro conjI allI impI)
  show "length b58digits_map = 128" by (rule length_b58digits_map)
next
  fix i :: nat assume "i < 58"
  then show "b58digits_map ! b58u (b58digits_ordered ! i) = int i" by (rule alphabet_lookup)
next
  fix v :: nat assume "v < 128" and "v \<notin> b58u ` set b58digits_ordered"
  then show "b58digits_map ! v = -1" by (rule table_non_alphabet)
next
  fix ch assume "128 \<le> b58u ch"
  then show "b58u ch AND 0x80 \<noteq> 0"
    using high_bit_test [OF b58u_less_256, of ch] by simp
next
  fix ch binsz rest outi assume "128 \<le> b58u ch"
  then have "b58u ch AND 0x80 \<noteq> 0"
    using high_bit_test [OF b58u_less_256, of ch] by simp
  then show "b58tobin_digits binsz (ch # rest) outi = None" by simp
next
  fix ch bin binsz b58 assume "128 \<le> b58u ch" and m: "ch \<in> set (cstring b58)"
  then have "ch \<notin> set b58digits_ordered" using alphabet_char [of ch] by auto
  with m show "b58tobin bin binsz b58 = (False, bin, binsz)" by (rule b58tobin_invalid)
qed

theorem b58digits_map_inverts_alphabet_witness:
  "b58digits_map ! b58u (b58digits_ordered ! 57) = 57
   \<and> b58digits_map ! 48 = -1
   \<and> b58u (CHR 0xC8) AND 0x80 \<noteq> 0
   \<and> b58tobin_digits 4 [CHR 0xC8, CHR ''2''] [7] = None
   \<and> b58tobin [7, 7] 2 [CHR ''2'', CHR 0xC8, CHR ''3''] = (False, [7, 7], 2)"
proof -
  have a: "(48::nat) \<notin> b58u ` set b58digits_ordered" by code_simp
  have b: "128 \<le> b58u (CHR 0xC8)" by (simp add: b58u_def)
  have c: "CHR 0xC8 \<in> set (cstring [CHR ''2'', CHR 0xC8, CHR ''3''])" by code_simp
  have d: "(57::nat) < 58" and e: "(48::nat) < 128" by simp_all
  from b58digits_map_inverts_alphabet
  have "b58digits_map ! b58u (b58digits_ordered ! 57) = int 57"
    and "b58digits_map ! 48 = -1"
    and "b58u (CHR 0xC8) AND 0x80 \<noteq> 0"
    and "b58tobin_digits 4 [CHR 0xC8, CHR ''2''] [7] = None"
    and "b58tobin [7, 7] 2 [CHR ''2'', CHR 0xC8, CHR ''3''] = (False, [7, 7], 2)"
    using a b c d e by blast+
  then show ?thesis by simp
qed

text \<open>
  C9, as the specification states it, fails: the byte value 200 is not a character of
  the alphabet, and the table has no entry for it.
\<close>

theorem b58digits_map_no_entry_for_high_bytes:
  "b58u (CHR 0xC8) \<notin> b58u ` set b58digits_ordered \<and> \<not> b58u (CHR 0xC8) < length b58digits_map"
proof -
  have "b58u (CHR 0xC8) \<notin> b58u ` set b58digits_ordered" by code_simp
  moreover have "\<not> b58u (CHR 0xC8) < length b58digits_map"
    by (simp add: length_b58digits_map b58u_def)
  ultimately show ?thesis by simp
qed

subsection \<open>The serialized bytes and the last loop\<close>

lemma length_chunk_bytes [simp]: "length (chunk_bytes n w) = n"
  by (simp add: chunk_bytes_def)

lemma length_concat_chunks:
  "length (concat (map (\<lambda>j. chunk_bytes 4 (outi ! j)) js)) = 4 * length js"
  by (induction js) simp_all

lemma outisz_bytesleft: "4 * outisz binsz = binsz + (if bytesleft binsz = 0 then 0 else 4 - bytesleft binsz)"
  unfolding outisz_def bytesleft_def by presburger

lemma length_b58tobin_serialize [simp]: "length (b58tobin_serialize binsz outi) = binsz"
proof (cases "bytesleft binsz = 0")
  case True
  then show ?thesis
    using outisz_bytesleft [of binsz] by (simp add: b58tobin_serialize_def length_concat_chunks)
next
  case False
  moreover have "bytesleft binsz < 4" by (simp add: bytesleft_def)
  moreover have "0 < outisz binsz"
    using False unfolding outisz_def bytesleft_def by presburger
  ultimately show ?thesis
    using outisz_bytesleft [of binsz]
    by (simp add: b58tobin_serialize_def length_concat_chunks algebra_simps)
qed


lemma b58tobin_count_all_zero:
  "\<forall>b\<in>set bs. b = 0 \<Longrightarrow> b58tobin_count bs i zerocount sz = (True, sz - length bs)"
  by (induction bs arbitrary: i sz) simp_all

lemma b58tobin_zerocount_mod: "b58tobin_zerocount s = leading_ones s mod 4294967296"
  by (simp add: b58tobin_zerocount_def unat_of_nat)

lemma b58tobin_zerocount_small:
  "leading_ones s < 4294967296 \<Longrightarrow> b58tobin_zerocount s = leading_ones s"
  by (simp add: b58tobin_zerocount_mod)



subsection \<open>The encoder's conversion\<close>

lemma buf_val_snoc: "buf_val (xs @ [d]) = buf_val xs * 58 + unat d"
  by (simp add: buf_val_def)

lemma buf_val_zeros: "\<forall>d\<in>set xs. d = 0 \<Longrightarrow> buf_val xs = 0"
  by (induction xs) (simp_all add: buf_val_def digits_val_Cons)

lemma unat_digit_mod_58: "unat (of_nat (x mod 58) :: uint8_t) = x mod 58"
proof -
  have "x mod 58 < 256" by (rule less_trans [of _ 58]) simp_all
  then show ?thesis by (simp add: unat_of_nat)
qed

lemma take_Suc_zero_prefix:
  assumes "j < length buf" and "\<forall>k\<le>j. buf ! k = 0"
  shows "\<forall>d\<in>set (take (Suc j) buf). d = (0 :: uint8_t)"
proof
  fix d assume "d \<in> set (take (Suc j) buf)"
  then obtain k where "k < length (take (Suc j) buf)" and "take (Suc j) buf ! k = d"
    by (auto simp: in_set_conv_nth)
  with assms show "d = 0" by auto
qed

lemma b58enc_carry_inv:
  "b58enc_carry high j c buf = (buf', j') \<Longrightarrow> j < length buf \<Longrightarrow>
   \<forall>d\<in>set buf. unat d < 58 \<Longrightarrow> \<forall>k. k \<le> high \<and> k \<le> j \<longrightarrow> buf ! k = 0 \<Longrightarrow>
   length buf' = length buf \<and> (\<forall>d\<in>set buf'. unat d < 58)
   \<and> drop (Suc j) buf' = drop (Suc j) buf
   \<and> (j' = 0 \<or> (\<forall>k\<le>j'. buf' ! k = 0)) \<and> j' \<le> j
   \<and> (\<exists>lost. buf_val (take (Suc j) buf') + lost * 58 ^ Suc j
               = 256 * buf_val (take (Suc j) buf) + c)"
proof (induction high j c buf arbitrary: buf' j' rule: b58enc_carry.induct)
  case (1 high j carry buf)
  note res = "1.prems"(1) and jlen = "1.prems"(2) and dig = "1.prems"(3) and zero = "1.prems"(4)
  show ?case
  proof (cases "j > high \<or> carry \<noteq> 0")
    case False
    then have "b58enc_carry high j carry buf = (buf, j)"
      by (subst b58enc_carry.simps) simp
    with res have eq: "buf' = buf" "j' = j" by simp_all
    from False have jh: "j \<le> high" and c0: "carry = 0" by simp_all
    from zero jh have z: "\<forall>k\<le>j. buf ! k = 0" by auto
    then have "buf_val (take (Suc j) buf) = 0"
      using jlen by (intro buf_val_zeros take_Suc_zero_prefix)
    then have "buf_val (take (Suc j) buf) + 0 * 58 ^ Suc j = 256 * buf_val (take (Suc j) buf) + carry"
      using c0 by simp
    then have "\<exists>lost. buf_val (take (Suc j) buf) + lost * 58 ^ Suc j
                 = 256 * buf_val (take (Suc j) buf) + carry" ..
    with eq dig z show ?thesis by simp
  next
    case True
    define x where "x = carry + 256 * unat (buf ! j)"
    define buf1 where "buf1 = buf[j := of_nat (x mod 58)]"
    define c2 where "c2 = x div 58"
    have len1: "length buf1 = length buf" by (simp add: buf1_def)
    have dig1: "\<forall>d\<in>set buf1. unat d < 58"
    proof
      fix d assume "d \<in> set buf1"
      then have "d \<in> insert (of_nat (x mod 58)) (set buf)"
        unfolding buf1_def using set_update_subset_insert by fastforce
      with dig show "unat d < 58" by (auto simp: unat_digit_mod_58)
    qed
    have nth1: "buf1 ! j = of_nat (x mod 58)" using jlen by (simp add: buf1_def)
    have split: "x mod 58 + c2 * 58 = x" by (simp add: c2_def)
    show ?thesis
    proof (cases "j = 0")
      case j0: True
      with True have "b58enc_carry high j carry buf = (buf1, 0)"
        by (subst b58enc_carry.simps) (simp add: x_def buf1_def Let_def)
      with res have eq: "buf' = buf1" "j' = 0" by simp_all
      from jlen j0 have t0: "take (Suc 0) buf = [buf ! 0]"
        by (simp add: take_Suc_conv_app_nth)
      from jlen j0 len1 have t1: "take (Suc 0) buf1 = [buf1 ! 0]"
        by (simp add: take_Suc_conv_app_nth)
      have "buf_val (take (Suc 0) buf1) + c2 * 58 ^ Suc 0 = 256 * buf_val (take (Suc 0) buf) + carry"
        using split nth1 j0 by (simp add: t0 t1 buf_val_def digits_val_Cons x_def unat_digit_mod_58)
      then have "\<exists>lost. buf_val (take (Suc 0) buf1) + lost * 58 ^ Suc 0
                   = 256 * buf_val (take (Suc 0) buf) + carry" ..
      moreover have "drop (Suc 0) buf1 = drop (Suc 0) buf"
        using j0 by (simp add: buf1_def drop_update_cancel)
      ultimately show ?thesis using eq len1 dig1 j0 by simp
    next
      case jn: False
      with True have "b58enc_carry high j carry buf = b58enc_carry high (j - 1) c2 buf1"
        by (subst b58enc_carry.simps) (simp add: x_def buf1_def c2_def Let_def)
      with res have rec: "b58enc_carry high (j - 1) c2 buf1 = (buf', j')" by simp
      have p2: "j - 1 < length buf1" using jlen len1 by simp
      have p4: "\<forall>k. k \<le> high \<and> k \<le> j - 1 \<longrightarrow> buf1 ! k = 0"
      proof (intro allI impI)
        fix k assume k: "k \<le> high \<and> k \<le> j - 1"
        with jn have "k \<noteq> j" "k \<le> j" by auto
        with zero k show "buf1 ! k = 0" by (simp add: buf1_def)
      qed
      from jn have sj: "Suc (j - 1) = j" by simp
      have ih: "length buf' = length buf1 \<and> (\<forall>d\<in>set buf'. unat d < 58)
          \<and> drop j buf' = drop j buf1
          \<and> (j' = 0 \<or> (\<forall>k\<le>j'. buf' ! k = 0)) \<and> j' \<le> j - 1
          \<and> (\<exists>lost. buf_val (take j buf') + lost * 58 ^ j = 256 * buf_val (take j buf1) + c2)"
        using "1.IH" [OF True x_def buf1_def c2_def jn rec p2 dig1 p4] unfolding sj .
      then obtain lost where
        lost: "buf_val (take j buf') + lost * 58 ^ j = 256 * buf_val (take j buf1) + c2"
        by blast
      from ih have len': "length buf' = length buf" and dj: "drop j buf' = drop j buf1"
        using len1 by simp_all
      have nth': "buf' ! j = of_nat (x mod 58)"
      proof -
        have "buf' ! j = drop j buf' ! 0" using jlen len' by simp
        also have "\<dots> = buf1 ! j" using jlen len1 by (simp add: dj)
        finally show ?thesis by (simp add: nth1)
      qed
      have tk1: "take j buf1 = take j buf" by (simp add: buf1_def)
      have v': "buf_val (take (Suc j) buf') = buf_val (take j buf') * 58 + x mod 58"
        using jlen len' by (simp add: take_Suc_conv_app_nth buf_val_snoc nth' unat_digit_mod_58)
      have v: "buf_val (take (Suc j) buf) = buf_val (take j buf) * 58 + unat (buf ! j)"
        using jlen by (simp add: take_Suc_conv_app_nth buf_val_snoc)
      have "(buf_val (take j buf') + lost * 58 ^ j) * 58 + x mod 58
              = (256 * buf_val (take j buf) + c2) * 58 + x mod 58"
        using lost by (simp only: tk1)
      also have "\<dots> = 256 * (buf_val (take j buf) * 58) + x"
        using split by (simp add: algebra_simps)
      finally have "buf_val (take (Suc j) buf') + lost * 58 ^ Suc j
                      = 256 * buf_val (take (Suc j) buf) + carry"
        by (simp add: v v' x_def algebra_simps)
      then have ex: "\<exists>lost. buf_val (take (Suc j) buf') + lost * 58 ^ Suc j
                      = 256 * buf_val (take (Suc j) buf) + carry" ..
      have "drop (Suc j) buf' = drop 1 (drop j buf')" by simp
      also have "\<dots> = drop (Suc j) buf1" by (simp add: dj)
      also have "\<dots> = drop (Suc j) buf" by (simp add: buf1_def drop_update_cancel)
      finally have dr: "drop (Suc j) buf' = drop (Suc j) buf" .
      from ih have "j' \<le> j - 1" by blast
      then have "j' \<le> j" by simp
      with ih ex dr len' show ?thesis by simp
    qed
  qed
qed

lemma pow_256_100_le: "(256::nat) ^ 100 \<le> 58 ^ 138"
  by simp

lemma pow_256_le_58:
  assumes "138 * m \<le> 100 * k"
  shows "(256::nat) ^ m \<le> 58 ^ k"
proof -
  have "((256::nat) ^ m) ^ 100 = (256 ^ 100) ^ m" by (metis power_mult mult.commute)
  also have "\<dots> \<le> (58 ^ 138) ^ m" by (rule power_mono) (simp_all add: pow_256_100_le)
  also have "\<dots> = 58 ^ (138 * m)" by (simp only: power_mult)
  also have "\<dots> \<le> 58 ^ (100 * k)" using assms by (intro power_increasing) simp_all
  also have "\<dots> = ((58::nat) ^ k) ^ 100" by (metis power_mult mult.commute)
  finally have "((256::nat) ^ m) ^ Suc 99 \<le> ((58::nat) ^ k) ^ Suc 99" by simp
  then show ?thesis by (rule power_le_imp_le_base) simp
qed

lemma buffer_size_bound: "(256::nat) ^ n \<le> 58 ^ (n * 138 div 100 + 1)"
proof (rule pow_256_le_58)
  define q where "q = n * 138 div 100"
  define r where "r = n * 138 mod 100"
  have r: "r < 100" by (simp add: r_def)
  have "100 * q + r = n * 138" unfolding q_def r_def by (rule mult_div_mod_eq)
  then have e: "138 * n = 100 * q + r" by (simp only: mult.commute)
  have "138 * n \<le> 100 * (q + 1)" unfolding e using r by simp
  then show "138 * n \<le> 100 * (n * 138 div 100 + 1)" by (simp only: q_def)
qed

lemma buffer_size_bound_pred:
  assumes "0 < n"
  shows "(256::nat) ^ (n - 1) \<le> 58 ^ (n * 138 div 100)"
proof (rule pow_256_le_58)
  define q where "q = n * 138 div 100"
  define r where "r = n * 138 mod 100"
  have r: "r < 100" by (simp add: r_def)
  have "100 * q + r = n * 138" unfolding q_def r_def by (rule mult_div_mod_eq)
  then have e: "138 * n = 100 * q + r" by (simp only: mult.commute)
  have "138 * (n - 1) = 138 * n - 138" by (simp add: algebra_simps)
  then have "138 * (n - 1) \<le> 100 * q" unfolding e using r by simp
  then show "138 * (n - 1) \<le> 100 * (n * 138 div 100)" by (simp only: q_def)
qed

lemma bytes_val_Nil [simp]: "bytes_val [] = 0"
  by (simp add: bytes_val_def)

lemma bytes_val_Cons: "bytes_val (b # bs) = unat b * 256 ^ length bs + bytes_val bs"
  by (simp add: bytes_val_def digits_val_Cons)

lemma unat_byte_less: "unat (b :: uint8_t) < 256"
  using unsigned_less [of b, where 'a = nat] by simp

lemma bytes_val_less: "bytes_val bs < 256 ^ length bs"
  using digits_val_lt [of "map unat bs" 256] by (simp add: bytes_val_def unat_byte_less)

lemma buf_val_first_zero:
  assumes "buf \<noteq> []" and "buf_val buf < 58 ^ (length buf - 1)"
  shows "buf ! 0 = 0"
proof -
  from assms(1) obtain d rest where buf: "buf = d # rest" by (cases buf) auto
  have a: "unat d * 58 ^ length rest \<le> buf_val buf"
    by (simp add: buf buf_val_def digits_val_Cons)
  have b: "buf_val buf < 58 ^ length rest" using assms(2) by (simp add: buf)
  from a b have "unat d * 58 ^ length rest < 58 ^ length rest" by (rule le_less_trans)
  then have "unat d = 0" by (cases "unat d") simp_all
  then show ?thesis by (simp add: buf unat_eq_0)
qed

lemma b58enc_convert_inv:
  "length buf = bufsz \<Longrightarrow> 0 < bufsz \<Longrightarrow> \<forall>d\<in>set buf. unat d < 58 \<Longrightarrow> high < bufsz \<Longrightarrow>
   (bs \<noteq> [] \<longrightarrow> (\<forall>k\<le>high. buf ! k = 0)) \<Longrightarrow> buf_val buf < 256 ^ m \<Longrightarrow>
   256 ^ (m + length bs) \<le> (58::nat) ^ bufsz \<Longrightarrow>
   (bs \<noteq> [] \<longrightarrow> 256 ^ (m + length bs - 1) \<le> (58::nat) ^ (bufsz - 1)) \<Longrightarrow>
   length (b58enc_convert bs high buf) = bufsz
   \<and> (\<forall>d\<in>set (b58enc_convert bs high buf). unat d < 58)
   \<and> buf_val (b58enc_convert bs high buf) = buf_val buf * 256 ^ length bs + bytes_val bs"
proof (induction bs arbitrary: buf high m)
  case Nil
  then show ?case by simp
next
  case (Cons b bs)
  note len = Cons.prems(1) and pos = Cons.prems(2) and dig = Cons.prems(3)
    and hi = Cons.prems(4) and val = Cons.prems(6) and fit = Cons.prems(7)
  from Cons.prems(5) have zero: "\<forall>k\<le>high. buf ! k = 0" by simp
  from Cons.prems(8) have fit1: "256 ^ (m + length bs) \<le> (58::nat) ^ (bufsz - 1)" by simp
  obtain buf1 j where c: "b58enc_carry high (bufsz - 1) (unat b) buf = (buf1, j)"
    by fastforce
  have sz: "Suc (bufsz - 1) = bufsz" using pos by simp
  have "length buf1 = length buf \<and> (\<forall>d\<in>set buf1. unat d < 58)
     \<and> drop (Suc (bufsz - 1)) buf1 = drop (Suc (bufsz - 1)) buf
     \<and> (j = 0 \<or> (\<forall>k\<le>j. buf1 ! k = 0)) \<and> j \<le> bufsz - 1
     \<and> (\<exists>lost. buf_val (take (Suc (bufsz - 1)) buf1) + lost * 58 ^ Suc (bufsz - 1)
                 = 256 * buf_val (take (Suc (bufsz - 1)) buf) + unat b)"
    using c len pos dig zero by (intro b58enc_carry_inv) auto
  then obtain lost where len1: "length buf1 = bufsz" and dig1: "\<forall>d\<in>set buf1. unat d < 58"
    and j: "j = 0 \<or> (\<forall>k\<le>j. buf1 ! k = 0)" and jle: "j \<le> bufsz - 1"
    and lost: "buf_val buf1 + lost * 58 ^ bufsz = 256 * buf_val buf + unat b"
    unfolding sz using len by auto
  let ?T = "256 * buf_val buf + unat b"
  from val have "buf_val buf + 1 \<le> 256 ^ m" by simp
  then have "256 * (buf_val buf + 1) \<le> 256 * 256 ^ m" by (rule mult_le_mono2)
  with unat_byte_less [of b] have T: "?T < 256 ^ (m + 1)" by simp
  have "(256::nat) ^ (m + 1) \<le> 256 ^ (m + length (b # bs))"
    by (rule power_increasing) simp_all
  with T have "?T < 256 ^ (m + length (b # bs))" by (rule less_le_trans)
  then have Tsize: "?T < 58 ^ bufsz" using fit by (rule less_le_trans)
  have lost0: "lost = 0"
  proof (rule ccontr)
    assume "lost \<noteq> 0"
    then have "(58::nat) ^ bufsz \<le> lost * 58 ^ bufsz" by (cases lost) simp_all
    with lost Tsize show False by simp
  qed
  with lost have val1: "buf_val buf1 = ?T" by simp
  have zero1: "bs \<noteq> [] \<longrightarrow> (\<forall>k\<le>j. buf1 ! k = 0)"
  proof
    assume ne: "bs \<noteq> []"
    show "\<forall>k\<le>j. buf1 ! k = 0"
    proof (cases "j = 0")
      case False
      with j show ?thesis by simp
    next
      case True
      from ne have "(256::nat) ^ (m + 1) \<le> 256 ^ (m + length bs)"
        by (intro power_increasing) (simp_all add: Suc_leI)
      with T have "?T < 256 ^ (m + length bs)" by (rule less_le_trans)
      then have "?T < 58 ^ (bufsz - 1)" using fit1 by (rule less_le_trans)
      then have "buf_val buf1 < 58 ^ (length buf1 - 1)" by (simp only: val1 len1)
      moreover from len1 pos have "buf1 \<noteq> []" by auto
      ultimately have "buf1 ! 0 = 0" by (intro buf_val_first_zero)
      with True show ?thesis by simp
    qed
  qed
  have jsz: "j < bufsz" using jle pos by simp
  have fit': "256 ^ (Suc m + length bs) \<le> (58::nat) ^ bufsz" using fit by simp
  have fit1': "bs \<noteq> [] \<longrightarrow> 256 ^ (Suc m + length bs - 1) \<le> (58::nat) ^ (bufsz - 1)"
    using fit1 by simp
  have T': "buf_val buf1 < 256 ^ Suc m" using T val1 by simp
  have ih: "length (b58enc_convert bs j buf1) = bufsz
     \<and> (\<forall>d\<in>set (b58enc_convert bs j buf1). unat d < 58)
     \<and> buf_val (b58enc_convert bs j buf1) = buf_val buf1 * 256 ^ length bs + bytes_val bs"
    by (rule Cons.IH [OF len1 pos dig1 jsz zero1 T' fit' fit1'])
  have step: "b58enc_convert (b # bs) high buf = b58enc_convert bs j buf1"
    using c len by simp
  show ?case
    unfolding step using ih val1 by (simp add: bytes_val_Cons algebra_simps)
qed

lemma bytes_val_leading_zeros: "bytes_val (replicate k 0 @ bs) = bytes_val bs"
  by (simp add: bytes_val_def digits_val_append)

lemma takeWhile_zero_replicate:
  "takeWhile (\<lambda>b. b = 0) bs = replicate (length (takeWhile (\<lambda>b. b = 0) bs)) 0"
  by (induction bs) simp_all

lemma split_leading_zeros:
  "bs = replicate (length (takeWhile (\<lambda>b. b = 0) bs)) 0 @ drop (length (takeWhile (\<lambda>b. b = 0) bs)) bs"
proof -
  have "bs = takeWhile (\<lambda>b. b = 0) bs @ dropWhile (\<lambda>b. b = 0) bs" by simp
  then show ?thesis
    using takeWhile_zero_replicate [of bs] by (simp add: dropWhile_eq_drop)
qed

lemma bytes_val_drop_zeros:
  "bytes_val (drop (length (takeWhile (\<lambda>b. b = 0) bs)) bs) = bytes_val bs"
  using bytes_val_leading_zeros [of "length (takeWhile (\<lambda>b. b = 0) bs)"
      "drop (length (takeWhile (\<lambda>b. b = 0) bs)) bs"] split_leading_zeros [of bs]
  by simp

lemma map_nth_from: "map (\<lambda>k. f (xs ! k)) [j..<length xs] = map f (drop j xs)"
  by (rule nth_equalityI) simp_all

lemma b58enc_buf_props:
  "length (b58enc_buf data) = (length data - length (takeWhile (\<lambda>b. b = 0) data)) * 138 div 100 + 1
   \<and> (\<forall>d\<in>set (b58enc_buf data). unat d < 58)
   \<and> buf_val (b58enc_buf data) = bytes_val data"
proof -
  define zc where "zc = length (takeWhile (\<lambda>b. b = 0) data)"
  define rest where "rest = drop zc data"
  define n where "n = length data - zc"
  define sz where "sz = n * 138 div 100 + 1"
  define buf0 where "buf0 = replicate sz (0 :: uint8_t)"
  have n: "length rest = n" by (simp add: rest_def n_def)
  have p1: "length buf0 = sz" by (simp add: buf0_def)
  have p2: "0 < sz" by (simp add: sz_def)
  have p3: "\<forall>d\<in>set buf0. unat d < 58" by (simp add: buf0_def)
  have p4: "sz - 1 < sz" using p2 by simp
  have p5: "rest \<noteq> [] \<longrightarrow> (\<forall>k\<le> sz - 1. buf0 ! k = 0)" using p2 by (simp add: buf0_def)
  have p6: "buf_val buf0 < 256 ^ 0" by (simp add: buf_val_zeros buf0_def)
  have p7: "256 ^ (0 + length rest) \<le> (58::nat) ^ sz"
    unfolding n add_0 sz_def by (rule buffer_size_bound)
  have p8: "rest \<noteq> [] \<longrightarrow> 256 ^ (0 + length rest - 1) \<le> (58::nat) ^ (sz - 1)"
  proof
    assume "rest \<noteq> []"
    then have "0 < length rest" by simp
    then have "0 < n" by (simp only: n)
    then have "(256::nat) ^ (n - 1) \<le> 58 ^ (n * 138 div 100)" by (rule buffer_size_bound_pred)
    then show "256 ^ (0 + length rest - 1) \<le> (58::nat) ^ (sz - 1)"
      by (simp only: n add_0 sz_def add_diff_cancel_right')
  qed
  have "length (b58enc_convert rest (sz - 1) buf0) = sz
     \<and> (\<forall>d\<in>set (b58enc_convert rest (sz - 1) buf0). unat d < 58)
     \<and> buf_val (b58enc_convert rest (sz - 1) buf0)
         = buf_val buf0 * 256 ^ length rest + bytes_val rest"
    by (rule b58enc_convert_inv [OF p1 p2 p3 p4 p5 p6 p7 p8])
  moreover have "b58enc_buf data = b58enc_convert rest (sz - 1) buf0"
    by (simp only: b58enc_buf_def Let_def rest_def zc_def sz_def n_def buf0_def)
  moreover have "buf_val buf0 = 0" by (simp add: buf_val_zeros buf0_def)
  moreover have "bytes_val rest = bytes_val data"
    unfolding rest_def zc_def by (rule bytes_val_drop_zeros)
  ultimately show ?thesis
    by (simp add: sz_def n_def zc_def)
qed

lemma length_b58enc_string:
  "length (b58enc_string data)
     = length (takeWhile (\<lambda>b. b = 0) data)
       + (length (b58enc_buf data) - length (takeWhile (\<lambda>d. d = 0) (b58enc_buf data)))"
  by (simp add: b58enc_string_def dropWhile_eq_drop)

lemma b58enc_outcome:
  "b58enc b58 b58sz data =
     (if b58sz \<le> length (b58enc_string data)
      then (False, b58, length (b58enc_string data) + 1)
      else (True,
            b58enc_string data @ [CHR 0x00] @ drop (length (b58enc_string data) + 1) b58,
            length (b58enc_string data) + 1))"
proof -
  define zc where "zc = length (takeWhile (\<lambda>b. b = 0) data)"
  define sz where "sz = (length data - zc) * 138 div 100 + 1"
  define buf where "buf = b58enc_buf data"
  define j where "j = length (takeWhile (\<lambda>d. d = 0) buf)"
  define digits where "digits = map (\<lambda>k. b58digits_ordered ! unat (buf ! k)) [j..<sz]"
  have len: "length buf = sz"
    using b58enc_buf_props [of data] unfolding buf_def sz_def zc_def by blast
  have cv: "b58enc_convert (drop zc data) (sz - 1) (replicate sz 0) = buf"
    by (simp only: b58enc_buf_def Let_def buf_def zc_def sz_def)
  have j: "j \<le> sz" unfolding j_def using length_takeWhile_le [of _ buf] by (simp only: len)
  have dg: "digits = map (\<lambda>d. b58digits_ordered ! unat d) (dropWhile (\<lambda>d. d = 0) buf)"
    unfolding digits_def j_def
    using map_nth_from [of "\<lambda>d. b58digits_ordered ! unat d" buf "length (takeWhile (\<lambda>d. d = 0) buf)"]
    by (simp only: len dropWhile_eq_drop)
  have s: "b58enc_string data = replicate zc (CHR ''1'') @ digits"
    by (simp only: dg b58enc_string_def zc_def buf_def)
  have ld: "length digits = sz - j" by (simp add: digits_def)
  have l: "length (b58enc_string data) = zc + sz - j"
    using j by (simp add: s ld)
  have m: "b58enc b58 b58sz data =
     (if b58sz \<le> zc + sz - j then (False, b58, zc + sz - j + 1)
      else (True, replicate zc (CHR ''1'') @ digits @ [CHR 0x00] @ drop (zc + length digits + 1) b58,
            zc + length digits + 1))"
    by (simp only: b58enc_def Let_def cv zc_def [symmetric] sz_def [symmetric]
        j_def [symmetric] digits_def [symmetric])
  have e: "zc + length digits = zc + sz - j" using j by (simp add: ld)
  show ?thesis by (simp only: m e l) (simp only: s append_assoc)
qed

lemma b58enc_string_alphabet: "set (b58enc_string data) \<subseteq> set b58digits_ordered"
proof
  fix ch assume "ch \<in> set (b58enc_string data)"
  then consider "ch = CHR ''1''"
    | d where "d \<in> set (b58enc_buf data)" and "ch = b58digits_ordered ! unat d"
    by (auto simp: b58enc_string_def dest: set_dropWhileD)
  then show "ch \<in> set b58digits_ordered"
  proof cases
    case 1
    then show ?thesis by (simp add: one_in_alphabet)
  next
    case 2
    with b58enc_buf_props [of data] have "unat d < 58" by blast
    with 2 show ?thesis by (simp add: alphabet_nth_mem)
  qed
qed

lemma b58enc_string_no_NUL: "CHR 0x00 \<notin> set (b58enc_string data)"
  using b58enc_string_alphabet [of data] alphabet_char [of "CHR 0x00"] by blast

lemma takeWhile_terminated:
  "CHR 0x00 \<notin> set s \<Longrightarrow> takeWhile (\<lambda>ch. ch \<noteq> CHR 0x00) (s @ [CHR 0x00] @ r) = s"
  by (induction s) auto

lemma strlen_terminated:
  assumes "CHR 0x00 \<notin> set s"
  shows "strlen (s @ [CHR 0x00] @ r) = length s"
  unfolding strlen_def takeWhile_terminated [OF assms] ..

lemma cstring_terminated:
  assumes "CHR 0x00 \<notin> set s"
  shows "cstring (s @ [CHR 0x00] @ r) = s"
  unfolding cstring_def strlen_terminated [OF assms] by simp

text \<open>
  C3. For every input \<open>data\<close> there is one length \<open>n\<close>, the length of the string that
  \<open>b58enc\<close> produces for it. With a capacity \<open>*b58sz\<close> below \<open>n + 1\<close> (the string and
  its terminator) \<open>b58enc\<close> returns false, leaves the buffer as it is and stores
  \<open>n + 1\<close>; with any capacity from \<open>n + 1\<close> on it returns true and stores a string of
  length \<open>n\<close>. So it fails exactly when the capacity is insufficient, what it reports
  is the exact size needed, and the call repeated with that size succeeds.
\<close>

theorem b58enc_capacity_negotiation:
  "\<exists>n. (\<forall>b58 cap.
           cap < n + 1 \<and> b58enc b58 cap data = (False, b58, n + 1)
         \<or> n + 1 \<le> cap \<and> (\<exists>out. b58enc b58 cap data = (True, out, n + 1) \<and> strlen out = n))
      \<and> (\<forall>b58. \<exists>out. b58enc b58 (n + 1) data = (True, out, n + 1) \<and> strlen out = n)"
proof (intro exI [of _ "length (b58enc_string data)"] conjI allI)
  fix b58 cap
  let ?s = "b58enc_string data"
  show "cap < length ?s + 1 \<and> b58enc b58 cap data = (False, b58, length ?s + 1)
      \<or> length ?s + 1 \<le> cap
        \<and> (\<exists>out. b58enc b58 cap data = (True, out, length ?s + 1) \<and> strlen out = length ?s)"
  proof (cases "cap \<le> length ?s")
    case True
    then show ?thesis by (simp add: b58enc_outcome)
  next
    case False
    then have "b58enc b58 cap data
        = (True, ?s @ [CHR 0x00] @ drop (length ?s + 1) b58, length ?s + 1)"
      by (simp add: b58enc_outcome)
    moreover have "strlen (?s @ [CHR 0x00] @ drop (length ?s + 1) b58) = length ?s"
      by (rule strlen_terminated) (rule b58enc_string_no_NUL)
    ultimately show ?thesis using False by auto
  qed
next
  fix b58
  let ?s = "b58enc_string data"
  have "b58enc b58 (length ?s + 1) data
        = (True, ?s @ [CHR 0x00] @ drop (length ?s + 1) b58, length ?s + 1)"
    by (simp add: b58enc_outcome)
  moreover have "strlen (?s @ [CHR 0x00] @ drop (length ?s + 1) b58) = length ?s"
    by (rule strlen_terminated) (rule b58enc_string_no_NUL)
  ultimately show "\<exists>out. b58enc b58 (length ?s + 1) data = (True, out, length ?s + 1)
      \<and> strlen out = length ?s" by auto
qed

subsection \<open>Concrete vectors\<close>

lemma list_update_Cons_numeral:
  "(x # xs)[numeral n := v] = x # xs[pred_numeral n := v]"
  by (simp add: numeral_eq_Suc)

lemma replicate_16: "replicate 16 (0::uint8_t) = [0,0,0,0,0,0,0,0,0,0,0,0,0,0,0,0]"
  by code_simp

lemma hello_bytes:
  "map (\<lambda>ch. word_of_nat (of_char ch)) ''Hello World!''
     = ([72, 101, 108, 108, 111, 32, 87, 111, 114, 108, 100, 33] :: uint8_t list)"
  by simp

lemma b58enc_buf_hello:
  "b58enc_buf [72, 101, 108, 108, 111, 32, 87, 111, 114, 108, 100, 33]
     = [1, 21, 13, 47, 46, 6, 26, 32, 24, 24, 49, 19, 32, 25, 41, 1, 27]"
  by (simp add: b58enc_buf_def replicate_16 b58enc_carry.simps Let_def list_update_Cons_numeral)

lemma b58enc_string_hello:
  "b58enc_string [72, 101, 108, 108, 111, 32, 87, 111, 114, 108, 100, 33] = ''2NEpo7TZRRrLZSi2U''"
  by (simp add: b58enc_string_def b58enc_buf_hello b58digits_ordered_def)

lemma b58enc_string_empty: "b58enc_string [] = ''''"
  by code_simp

lemma b58enc_string_0: "b58enc_string [0] = ''1''"
  by code_simp

lemma b58enc_string_001: "b58enc_string [0, 0, 1] = ''112''"
  by code_simp

lemma chunk_bytes_0: "chunk_bytes n 0 = replicate n 0"
  by (rule replicate_eqI) (auto simp: chunk_bytes_def)

lemma outisz_pos: "binsz \<noteq> 0 \<Longrightarrow> 0 < outisz binsz"
  unfolding outisz_def by presburger

lemma concat_chunks_zero:
  "\<forall>j\<in>set js. outi ! j = 0 \<Longrightarrow>
   b \<in> set (concat (map (\<lambda>j. chunk_bytes 4 (outi ! j)) js)) \<Longrightarrow> b = 0"
  by (induction js) (auto simp: chunk_bytes_0)

lemma b58tobin_serialize_zeros:
  "b58tobin_serialize binsz (replicate (outisz binsz) 0) = replicate binsz 0"
proof (rule replicate_eqI)
  show "length (b58tobin_serialize binsz (replicate (outisz binsz) 0)) = binsz" by simp
next
  let ?outi = "replicate (outisz binsz) (0 :: b58_almostmaxint_t)"
  fix b assume b: "b \<in> set (b58tobin_serialize binsz ?outi)"
  have z: "\<And>a. \<forall>j\<in>set [a..<outisz binsz]. ?outi ! j = 0" by simp
  show "b = 0"
  proof (cases "bytesleft binsz = 0")
    case True
    with b show ?thesis
      using concat_chunks_zero [OF z [of 0]] by (simp add: b58tobin_serialize_def)
  next
    case False
    then have "binsz \<noteq> 0" by (auto simp: bytesleft_def)
    then have "?outi ! 0 = 0" using outisz_pos [of binsz] by simp
    with False b show ?thesis
      using concat_chunks_zero [OF z [of 1]] by (auto simp: b58tobin_serialize_def chunk_bytes_0)
  qed
qed

lemma b58tobin_empty:
  "b58tobin bin (Suc n) '''' = (True, replicate (Suc n) 0 @ drop (Suc n) bin, 0)"
proof -
  have "b58tobin_count (replicate (Suc n) 0) 0 0 (Suc n) = (True, Suc n - length (replicate (Suc n) (0::uint8_t)))"
    by (rule b58tobin_count_all_zero) simp
  then show ?thesis
    by (simp add: b58tobin_def cstring_def strlen_def leading_ones_def b58tobin_zerocount_mod
        b58tobin_serialize_zeros del: replicate_Suc replicate.simps)
qed

text \<open>
  C8. With any sufficient capacity: \<open>b58enc\<close> of no bytes stores the empty string (the
  terminator alone), of the byte \<open>0x00\<close> the string \<open>"1"\<close>, of \<open>0x00 0x00 0x01\<close> the string
  \<open>"112"\<close>, where \<open>'2'\<close> is the digit for 1, and of the ASCII bytes of \<open>"Hello World!"\<close>
  the string \<open>"2NEpo7TZRRrLZSi2U"\<close>; in each case \<open>*b58sz\<close> becomes the length with the
  terminator. \<open>b58tobin\<close> of the empty string, into a buffer of any size other than 0,
  returns true with \<open>*binszp = 0\<close>.
\<close>

theorem base58_concrete_vectors:
  "b58enc b58 (1 + c) [] = (True, '''' @ [CHR 0x00] @ drop 1 b58, 1)
   \<and> b58enc b58 (2 + c) [0] = (True, ''1'' @ [CHR 0x00] @ drop 2 b58, 2)
   \<and> b58enc b58 (4 + c) [0, 0, 1] = (True, ''112'' @ [CHR 0x00] @ drop 4 b58, 4)
   \<and> b58digits_ordered ! 1 = CHR ''2''
   \<and> b58tobin bin (Suc n) '''' = (True, replicate (Suc n) 0 @ drop (Suc n) bin, 0)
   \<and> b58enc b58 (18 + c) (map (\<lambda>ch. word_of_nat (of_char ch)) ''Hello World!'')
       = (True, ''2NEpo7TZRRrLZSi2U'' @ [CHR 0x00] @ drop 18 b58, 18)"
proof (intro conjI)
  show "b58enc b58 (1 + c) [] = (True, '''' @ [CHR 0x00] @ drop 1 b58, 1)"
    by (simp add: b58enc_outcome b58enc_string_empty)
  show "b58enc b58 (2 + c) [0] = (True, ''1'' @ [CHR 0x00] @ drop 2 b58, 2)"
    by (simp add: b58enc_outcome b58enc_string_0 eval_nat_numeral)
  show "b58enc b58 (4 + c) [0, 0, 1] = (True, ''112'' @ [CHR 0x00] @ drop 4 b58, 4)"
    by (simp add: b58enc_outcome b58enc_string_001 eval_nat_numeral)
  show "b58digits_ordered ! 1 = CHR ''2''"
    by (simp add: b58digits_ordered_def)
  show "b58tobin bin (Suc n) '''' = (True, replicate (Suc n) 0 @ drop (Suc n) bin, 0)"
    by (rule b58tobin_empty)
  show "b58enc b58 (18 + c) (map (\<lambda>ch. word_of_nat (of_char ch)) ''Hello World!'')
       = (True, ''2NEpo7TZRRrLZSi2U'' @ [CHR 0x00] @ drop 18 b58, 18)"
    by (simp only: hello_bytes b58enc_outcome b58enc_string_hello) (simp add: eval_nat_numeral)
qed

subsection \<open>The decoder's multiply-accumulate step\<close>

lemma unat_chunk_less: "unat (w :: b58_almostmaxint_t) < 4294967296"
  using unsigned_less [of w, where 'a = nat] by simp

lemma unat_maxint_less: "unat (w :: b58_maxint_t) < 18446744073709551616"
  using unsigned_less [of w, where 'a = nat] by simp

lemma unat_ucast_chunk: "unat (ucast (w :: b58_almostmaxint_t) :: b58_maxint_t) = unat w"
  using unat_chunk_less [of w] by (simp add: unsigned_ucast_eq take_bit_nat_eq_self)

lemma unat_muladd_t:
  fixes w c :: b58_almostmaxint_t
  shows "unat ((ucast w :: b58_maxint_t) * 58 + ucast c) = unat w * 58 + unat c"
proof -
  have "unat w * 58 + unat c < 18446744073709551616"
    using unat_chunk_less [of w] unat_chunk_less [of c] by simp
  then show ?thesis
    by (simp add: unat_word_ariths unat_ucast_chunk mod_add_left_eq)
qed

lemma unat_muladd_carry:
  fixes t :: b58_maxint_t
  shows "unat (ucast (drop_bit b58_almostmaxint_bits t) :: b58_almostmaxint_t)
           = unat t div 4294967296"
proof -
  have "unat (ucast (drop_bit 32 t) :: b58_almostmaxint_t) = take_bit 32 (drop_bit 32 (unat t))"
    by (simp only: unsigned_ucast_eq unat_drop_bit_eq) simp
  also have "\<dots> = (unat t div 4294967296) mod 4294967296"
    by (simp only: take_bit_eq_mod drop_bit_eq_div) simp
  also have "\<dots> = unat t div 4294967296"
    using unat_maxint_less [of t] by simp
  finally show ?thesis by (simp add: b58_almostmaxint_bits_def)
qed

lemma unat_muladd_chunk:
  fixes t :: b58_maxint_t
  shows "unat (ucast (t AND ucast b58_almostmaxint_mask) :: b58_almostmaxint_t)
           = unat t mod 4294967296"
proof -
  have m: "(ucast b58_almostmaxint_mask :: b58_maxint_t) = mask 32"
    by (simp add: b58_almostmaxint_mask_def b58_almostmaxint_bits_def mask_eq_exp_minus_1)
  have "unat (ucast (t AND mask 32) :: b58_almostmaxint_t) = take_bit 32 (take_bit 32 (unat t))"
    by (simp only: unsigned_ucast_eq unsigned_take_bit_eq flip: take_bit_eq_mask) simp
  also have "\<dots> = unat t mod 4294967296"
    by (simp only: take_bit_take_bit take_bit_eq_mod) simp
  finally show ?thesis by (simp only: m)
qed

lemma outi_val_snoc: "outi_val (ws @ [w]) = outi_val ws * 4294967296 + unat w"
  by (simp add: outi_val_def)

lemma b58tobin_muladd_inv:
  "b58tobin_muladd j outi c = (outi', c') \<Longrightarrow> j \<le> length outi \<Longrightarrow>
   length outi' = length outi \<and> drop j outi' = drop j outi
   \<and> outi_val (take j outi') + unat c' * 4294967296 ^ j = 58 * outi_val (take j outi) + unat c"
proof (induction j arbitrary: outi c)
  case 0
  then show ?case by (simp add: outi_val_def)
next
  case (Suc j)
  define t where "t = (ucast (outi ! j) :: b58_maxint_t) * 58 + ucast c"
  define c1 where "c1 = (ucast (drop_bit b58_almostmaxint_bits t) :: b58_almostmaxint_t)"
  define outi1 where "outi1 = outi[j := ucast (t AND ucast b58_almostmaxint_mask)]"
  have tv: "unat t = unat (outi ! j) * 58 + unat c" by (simp add: t_def unat_muladd_t)
  have cv: "unat c1 = unat t div 4294967296" by (simp add: c1_def unat_muladd_carry)
  have jl: "j < length outi" using Suc.prems(2) by simp
  have ov: "unat (outi1 ! j) = unat t mod 4294967296"
    using jl by (simp add: outi1_def unat_muladd_chunk)
  have rec: "b58tobin_muladd j outi1 c1 = (outi', c')"
    using Suc.prems(1) by (simp add: Let_def t_def c1_def outi1_def)
  have len1: "length outi1 = length outi" by (simp add: outi1_def)
  have ih: "length outi' = length outi1 \<and> drop j outi' = drop j outi1
     \<and> outi_val (take j outi') + unat c' * 4294967296 ^ j = 58 * outi_val (take j outi1) + unat c1"
    using Suc.IH [OF rec] jl len1 by simp
  then have len': "length outi' = length outi" and dj: "drop j outi' = drop j outi1"
    and v: "outi_val (take j outi') + unat c' * 4294967296 ^ j
              = 58 * outi_val (take j outi1) + unat c1"
    using len1 by simp_all
  have nth': "outi' ! j = outi1 ! j"
  proof -
    have "outi' ! j = drop j outi' ! 0" using jl len' by simp
    also have "\<dots> = outi1 ! j" using jl len1 by (simp add: dj)
    finally show ?thesis .
  qed
  have tk1: "take j outi1 = take j outi" by (simp add: outi1_def)
  have a: "outi_val (take (Suc j) outi') = outi_val (take j outi') * 4294967296 + unat t mod 4294967296"
    using jl len' by (simp add: take_Suc_conv_app_nth outi_val_snoc nth' ov)
  have b: "outi_val (take (Suc j) outi) = outi_val (take j outi) * 4294967296 + unat (outi ! j)"
    using jl by (simp add: take_Suc_conv_app_nth outi_val_snoc)
  have split: "unat t mod 4294967296 + unat c1 * 4294967296 = unat t"
    by (simp add: cv)
  have "(outi_val (take j outi') + unat c' * 4294967296 ^ j) * 4294967296 + unat t mod 4294967296
          = (58 * outi_val (take j outi) + unat c1) * 4294967296 + unat t mod 4294967296"
    using v by (simp only: tk1)
  also have "\<dots> = 58 * (outi_val (take j outi) * 4294967296) + unat t"
    using split by (simp add: algebra_simps)
  finally have val: "outi_val (take (Suc j) outi') + unat c' * 4294967296 ^ Suc j
      = 58 * outi_val (take (Suc j) outi) + unat c"
    by (simp add: a b tv algebra_simps)
  have "drop (Suc j) outi' = drop 1 (drop j outi')" by simp
  also have "\<dots> = drop (Suc j) outi1" by (simp add: dj)
  also have "\<dots> = drop (Suc j) outi" by (simp add: outi1_def drop_update_cancel)
  finally have "drop (Suc j) outi' = drop (Suc j) outi" .
  with len' val show ?case by simp
qed

subsection \<open>The decoder's loop over the characters\<close>

lemma valid_char:
  assumes "ch \<in> set b58digits_ordered"
  shows "b58u ch AND 0x80 = 0" and "b58digits_map ! b58u ch \<noteq> -1"
    and "unat (word_of_int (b58digits_map ! b58u ch) :: b58_almostmaxint_t) = b58_digit ch"
    and "b58_digit ch < 58"
proof -
  from assms obtain i where i: "i < 58" and ch: "ch = b58digits_ordered ! i"
    by (auto simp: in_set_conv_nth length_b58digits_ordered)
  from i have look: "b58digits_map ! b58u ch = int i" unfolding ch by (rule alphabet_lookup)
  from alphabet_char [OF assms] have "b58u ch < 128" by simp
  then show "b58u ch AND 0x80 = 0"
    using high_bit_test [OF b58u_less_256, of ch] by simp
  show "b58digits_map ! b58u ch \<noteq> -1" by (simp add: look)
  show "b58_digit ch < 58" using i by (simp add: b58_digit_def look)
  have "unat (word_of_nat i :: b58_almostmaxint_t) = i"
    using i by (simp add: unat_of_nat)
  then show "unat (word_of_int (b58digits_map ! b58u ch) :: b58_almostmaxint_t) = b58_digit ch"
    by (simp add: b58_digit_def look)
qed

lemma b58_digit_one: "b58_digit (CHR ''1'') = 0"
  using alphabet_lookup [of 0] by (simp add: b58_digit_def b58digits_ordered_0)

lemma pow_256_binsz:
  "(256::nat) ^ binsz * (if bytesleft binsz = 0 then 1 else 256 ^ (4 - bytesleft binsz))
     = 4294967296 ^ outisz binsz"
proof -
  have "(4294967296::nat) = 256 ^ 4" by simp
  then have "(4294967296::nat) ^ outisz binsz = 256 ^ (4 * outisz binsz)"
    by (simp only: power_mult)
  also have "\<dots> = 256 ^ (binsz + (if bytesleft binsz = 0 then 0 else 4 - bytesleft binsz))"
    by (simp only: outisz_bytesleft)
  finally show ?thesis by (simp add: power_add)
qed

lemma pow_256_eq: "(256::nat) ^ r = 2 ^ (r * 8)"
proof -
  have "(256::nat) ^ r = (2 ^ 8) ^ r" by simp
  also have "\<dots> = 2 ^ (8 * r)" by (simp only: power_mult)
  finally show ?thesis by (simp only: mult.commute)
qed

lemma digits_val_head_less:
  assumes "\<forall>d\<in>set ds. d < B"
  shows "(digits_val B (d # ds) < X * B ^ length ds) = (d < X)"
proof
  assume a: "digits_val B (d # ds) < X * B ^ length ds"
  have "d * B ^ length ds \<le> digits_val B (d # ds)" by (simp add: digits_val_Cons)
  from this a have "d * B ^ length ds < X * B ^ length ds" by (rule le_less_trans)
  then show "d < X" by simp
next
  assume "d < X"
  then have "(d + 1) * B ^ length ds \<le> X * B ^ length ds"
    by (intro mult_le_mono1) simp
  moreover have "digits_val B (d # ds) < (d + 1) * B ^ length ds"
    using digits_val_lt [OF assms] by (simp add: digits_val_Cons)
  ultimately show "digits_val B (d # ds) < X * B ^ length ds" by (meson less_le_trans)
qed

lemma and_high_bits_zero:
  fixes w :: b58_almostmaxint_t
  shows "(w AND NOT (mask n) = 0) = (unat w < 2 ^ n)"
proof -
  have "(w AND NOT (mask n) = 0) = (take_bit n w = w)"
    by (auto simp add: bit_eq_iff bit_simps)
  also have "\<dots> = (take_bit n (unat w) = unat w)"
    by (metis unsigned_take_bit_eq unsigned_word_eqI)
  also have "\<dots> = (unat w < 2 ^ n)"
    by (rule take_bit_nat_eq_self_iff)
  finally show ?thesis .
qed

lemma b58_almostmaxint_mask_eq: "b58_almostmaxint_mask = - 1"
  by (simp add: b58_almostmaxint_mask_def b58_almostmaxint_bits_def)

lemma outi_val_less: "outi_val outi < 4294967296 ^ length outi"
  using digits_val_lt [of "map unat outi" 4294967296] by (simp add: outi_val_def unat_chunk_less)

text \<open>The two tests after the inner loop fail exactly when the new number does not fit.\<close>

lemma b58tobin_fit_tests:
  assumes len: "length outi' = outisz binsz" and nz: "binsz \<noteq> 0"
    and val: "outi_val outi' + unat c' * 4294967296 ^ outisz binsz = v"
  shows "(c' = 0 \<and> outi' ! 0 AND zeromask binsz = 0) = (v < 256 ^ binsz)"
proof (cases "c' = 0")
  case False
  then have "1 \<le> unat c'" by (simp add: unat_gt_0 Suc_leI)
  then have "1 * 4294967296 ^ outisz binsz \<le> unat c' * 4294967296 ^ outisz binsz"
    by (rule mult_le_mono1)
  then have a: "4294967296 ^ outisz binsz \<le> unat c' * 4294967296 ^ outisz binsz"
    by (simp only: mult_1)
  have b: "unat c' * 4294967296 ^ outisz binsz \<le> v"
    unfolding val [symmetric] by (rule le_add2)
  have c: "(256::nat) ^ binsz \<le> 4294967296 ^ outisz binsz"
    unfolding pow_256_binsz [of binsz, symmetric] by simp
  from c a b have "256 ^ binsz \<le> v" by (meson le_trans)
  with False show ?thesis by simp
next
  case True
  with val have v: "outi_val outi' = v" by simp
  show ?thesis
  proof (cases "bytesleft binsz = 0")
    case b0: True
    have "v < 4294967296 ^ outisz binsz" using outi_val_less [of outi'] by (simp add: v len)
    with b0 True show ?thesis
      using pow_256_binsz [of binsz] by (simp add: zeromask_def)
  next
    case bn: False
    have pos: "0 < outisz binsz" using nz by (rule outisz_pos)
    with len obtain w ws where outi': "outi' = w # ws" by (cases outi') auto
    with len have lws: "length ws = outisz binsz - 1" by simp
    have r4: "bytesleft binsz < 4" by (simp add: bytesleft_def)
    have zm: "zeromask binsz = NOT (mask (bytesleft binsz * 8))"
      using bn by (simp add: zeromask_def b58_almostmaxint_mask_eq)
    have "4 * outisz binsz = binsz + (4 - bytesleft binsz)"
      using bn by (simp add: outisz_bytesleft)
    then have "binsz = 4 * (outisz binsz - 1) + bytesleft binsz" using r4 pos by simp
    then have "(256::nat) ^ binsz = 256 ^ bytesleft binsz * (256 ^ 4) ^ (outisz binsz - 1)"
      by (metis power_add power_mult mult.commute)
    then have "(256::nat) ^ binsz = 256 ^ bytesleft binsz * 4294967296 ^ length ws"
      by (simp add: lws)
    then have p: "(256::nat) ^ binsz = 2 ^ (bytesleft binsz * 8) * 4294967296 ^ length ws"
      by (simp only: pow_256_eq)
    have "\<forall>d\<in>set (map unat ws). d < 4294967296" by (simp add: unat_chunk_less)
    then have "(digits_val 4294967296 (unat w # map unat ws)
                  < 2 ^ (bytesleft binsz * 8) * 4294967296 ^ length (map unat ws))
               = (unat w < 2 ^ (bytesleft binsz * 8))"
      by (rule digits_val_head_less)
    then have "(v < 256 ^ binsz) = (unat w < 2 ^ (bytesleft binsz * 8))"
      unfolding p v [symmetric] outi' outi_val_def list.map by simp
    with True show ?thesis by (simp add: zm and_high_bits_zero outi')
  qed
qed

lemma b58_accumulate_Nil [simp]: "b58_accumulate v [] = v"
  by (simp add: b58_accumulate_def)

lemma b58_accumulate_Cons [simp]:
  "b58_accumulate v (ch # s) = b58_accumulate (v * 58 + b58_digit ch) s"
  by (simp add: b58_accumulate_def)

lemma b58_accumulate_mono: "v \<le> b58_accumulate v s"
proof (induction s arbitrary: v)
  case Nil
  show ?case by simp
next
  case (Cons ch s)
  have "v \<le> v * 58 + b58_digit ch" by simp
  also have "\<dots> \<le> b58_accumulate (v * 58 + b58_digit ch) s" by (rule Cons.IH)
  finally show ?case by simp
qed

lemma b58_magnitude_accumulate: "b58_magnitude s = b58_accumulate 0 s"
  by (simp add: b58_magnitude_def b58_accumulate_def digits_val_def foldl_map)

lemma b58_accumulate_ones:
  "\<forall>ch\<in>set s. ch = CHR ''1'' \<Longrightarrow> b58_accumulate 0 (s @ t) = b58_accumulate 0 t"
  by (induction s) (simp_all add: b58_digit_one)

lemma b58_magnitude_drop_ones:
  "b58_magnitude (drop (leading_ones s) s) = b58_magnitude s"
proof -
  let ?P = "\<lambda>ch. ch = CHR ''1''"
  have "b58_accumulate 0 (takeWhile ?P s @ dropWhile ?P s) = b58_accumulate 0 (dropWhile ?P s)"
    by (rule b58_accumulate_ones) (auto dest: set_takeWhileD)
  then show ?thesis
    by (simp add: b58_magnitude_accumulate drop_leading_ones)
qed

lemma b58tobin_digits_inv:
  assumes nz: "binsz \<noteq> 0"
  shows "set s \<subseteq> set b58digits_ordered \<Longrightarrow> length outi = outisz binsz \<Longrightarrow>
    outi_val outi < 256 ^ binsz \<Longrightarrow>
    (\<exists>outi'. b58tobin_digits binsz s outi = Some outi' \<and> length outi' = outisz binsz
        \<and> outi_val outi' = b58_accumulate (outi_val outi) s \<and> outi_val outi' < 256 ^ binsz)
    \<or> (b58tobin_digits binsz s outi = None \<and> 256 ^ binsz \<le> b58_accumulate (outi_val outi) s)"
proof (induction s arbitrary: outi)
  case Nil
  then show ?case by simp
next
  case (Cons ch s)
  from Cons.prems(1) have ch: "ch \<in> set b58digits_ordered" and s: "set s \<subseteq> set b58digits_ordered"
    by simp_all
  note len = Cons.prems(2) and fit = Cons.prems(3)
  define c where "c = (word_of_int (b58digits_map ! b58u ch) :: b58_almostmaxint_t)"
  obtain outi1 c1 where m: "b58tobin_muladd (outisz binsz) outi c = (outi1, c1)" by fastforce
  define v1 where "v1 = outi_val outi * 58 + b58_digit ch"
  have cd: "unat c = b58_digit ch" unfolding c_def by (rule valid_char(3) [OF ch])
  have "length outi1 = length outi \<and> drop (outisz binsz) outi1 = drop (outisz binsz) outi
     \<and> outi_val (take (outisz binsz) outi1) + unat c1 * 4294967296 ^ outisz binsz
         = 58 * outi_val (take (outisz binsz) outi) + unat c"
    using m len by (intro b58tobin_muladd_inv) simp_all
  then have len10: "length outi1 = length outi"
    and val0: "outi_val (take (outisz binsz) outi1) + unat c1 * 4294967296 ^ outisz binsz
         = 58 * outi_val (take (outisz binsz) outi) + unat c"
    by blast+
  have len1: "length outi1 = outisz binsz" using len10 len by simp
  have t1: "take (outisz binsz) outi1 = outi1" using len1 by simp
  have t0: "take (outisz binsz) outi = outi" using len by simp
  have val1: "outi_val outi1 + unat c1 * 4294967296 ^ outisz binsz = v1"
    using val0 unfolding t1 t0 by (simp add: cd v1_def mult.commute)
  have tests: "(c1 = 0 \<and> outi1 ! 0 AND zeromask binsz = 0) = (v1 < 256 ^ binsz)"
    using len1 nz val1 by (rule b58tobin_fit_tests)
  have unfold: "b58tobin_digits binsz (ch # s) outi =
      (if c1 \<noteq> 0 then None else if outi1 ! 0 AND zeromask binsz \<noteq> 0 then None
       else b58tobin_digits binsz s outi1)"
    using valid_char(1,2) [OF ch] m by (simp add: c_def [symmetric])
  show ?case
  proof (cases "v1 < 256 ^ binsz")
    case True
    with tests have c10: "c1 = 0" and t0: "outi1 ! 0 AND zeromask binsz = 0" by simp_all
    with val1 have v: "outi_val outi1 = v1" by simp
    have step: "b58tobin_digits binsz (ch # s) outi = b58tobin_digits binsz s outi1"
      by (simp only: unfold c10 t0) simp
    have fit1: "outi_val outi1 < 256 ^ binsz" using True v by simp
    from Cons.IH [OF s len1 fit1] show ?thesis
      unfolding step by (simp add: v v1_def)
  next
    case False
    with tests have "c1 \<noteq> 0 \<or> outi1 ! 0 AND zeromask binsz \<noteq> 0" by blast
    then have none: "b58tobin_digits binsz (ch # s) outi = None"
      by (auto simp only: unfold split: if_splits)
    from False have "256 ^ binsz \<le> v1" by simp
    also have "v1 \<le> b58_accumulate v1 s" by (rule b58_accumulate_mono)
    finally show ?thesis using none by (simp add: v1_def)
  qed
qed

lemma b58tobin_digits_start:
  "outi_val (replicate (outisz binsz) 0) = 0 \<and> length (replicate (outisz binsz) (0 :: b58_almostmaxint_t)) = outisz binsz"
  by (simp add: outi_val_def digits_val_zeros)

text \<open>
  C6. In the body of the loop over the characters, a carry left in \<open>c\<close> after the most
  significant chunk, or a bit of \<open>outi[0]\<close> under \<open>zeromask\<close>, makes \<open>b58tobin\<close>
  return false. As a consequence every string of alphabet characters whose magnitude
  is \<open>256 ^ binsz\<close> or more, that is, does not fit in \<open>binsz\<close> bytes, is rejected (with
  the buffer and \<open>*binszp\<close> untouched).
\<close>

theorem b58tobin_rejects_too_large:
  "(b58tobin_muladd (outisz binsz) outi (word_of_int (b58digits_map ! b58u ch)) = (outi', c')
      \<and> (c' \<noteq> 0 \<or> outi' ! 0 AND zeromask binsz \<noteq> 0)
    \<longrightarrow> b58tobin_digits binsz (ch # rest) outi = None)
   \<and> (set (cstring b58) \<subseteq> set b58digits_ordered \<and> 256 ^ binsz \<le> b58_magnitude (cstring b58)
    \<longrightarrow> b58tobin bin binsz b58 = (False, bin, binsz))"
proof (intro conjI impI)
  assume "b58tobin_muladd (outisz binsz) outi (word_of_int (b58digits_map ! b58u ch)) = (outi', c')
      \<and> (c' \<noteq> 0 \<or> outi' ! 0 AND zeromask binsz \<noteq> 0)"
  then show "b58tobin_digits binsz (ch # rest) outi = None"
    by (auto simp: Let_def)
next
  assume a: "set (cstring b58) \<subseteq> set b58digits_ordered \<and> 256 ^ binsz \<le> b58_magnitude (cstring b58)"
  show "b58tobin bin binsz b58 = (False, bin, binsz)"
  proof (cases "binsz = 0")
    case True
    then show ?thesis by (simp add: b58tobin_def)
  next
    case False
    let ?s = "drop (leading_ones (cstring b58)) (cstring b58)"
    let ?outi0 = "replicate (outisz binsz) (0 :: b58_almostmaxint_t)"
    have v0: "outi_val ?outi0 = 0" and l0: "length ?outi0 = outisz binsz"
      using b58tobin_digits_start [of binsz] by simp_all
    have sub: "set ?s \<subseteq> set b58digits_ordered"
      using a set_drop_subset [of "leading_ones (cstring b58)" "cstring b58"] by blast
    have fit: "outi_val ?outi0 < 256 ^ binsz" by (simp add: v0)
    have big: "256 ^ binsz \<le> b58_accumulate (outi_val ?outi0) ?s"
      using a by (simp add: v0 b58_magnitude_accumulate [symmetric] b58_magnitude_drop_ones)
    from b58tobin_digits_inv [OF False sub l0 fit] big
    have "b58tobin_digits binsz ?s ?outi0 = None" by auto
    with False show ?thesis by (simp add: b58tobin_def)
  qed
qed

theorem b58tobin_rejects_too_large_witness:
  "b58tobin_muladd (outisz 4) [0xFFFFFFFF] (word_of_int (b58digits_map ! b58u (CHR ''z'')))
     = ([0xFFFFFFFF], 57)
   \<and> b58tobin_digits 4 [CHR ''z''] [0xFFFFFFFF] = None
   \<and> set (cstring ''5R'') \<subseteq> set b58digits_ordered
   \<and> (256::nat) ^ 1 \<le> b58_magnitude (cstring ''5R'')
   \<and> b58tobin [0] 1 ''5R'' = (False, [0], 1)"
proof -
  have a: "b58tobin_muladd (outisz 4) [0xFFFFFFFF] (word_of_int (b58digits_map ! b58u (CHR ''z'')))
     = ([0xFFFFFFFF], 57)" by code_simp
  have b: "set (cstring ''5R'') \<subseteq> set b58digits_ordered" by code_simp
  have c: "(256::nat) ^ 1 \<le> b58_magnitude (cstring ''5R'')" by code_simp
  from a b c show ?thesis
    using b58tobin_rejects_too_large [of 4 "[0xFFFFFFFF]" "CHR ''z''" "[0xFFFFFFFF]" 57 "[]"]
      b58tobin_rejects_too_large [where binsz = 1 and ?b58.0 = "''5R''" and bin = "[0]"]
    by simp
qed

subsection \<open>The serialized bytes\<close>

lemma bytes_val_append: "bytes_val (xs @ ys) = bytes_val xs * 256 ^ length ys + bytes_val ys"
  by (simp add: bytes_val_def digits_val_append)

lemma unat_chunk_byte:
  fixes w :: b58_almostmaxint_t
  shows "unat (ucast (drop_bit k w AND 0xff) :: uint8_t) = (unat w div 2 ^ k) mod 256"
proof -
  have m: "(0xff :: b58_almostmaxint_t) = mask 8" by (simp add: mask_eq_exp_minus_1)
  have "unat (ucast (drop_bit k w AND mask 8) :: uint8_t)
          = take_bit 8 (take_bit 8 (drop_bit k (unat w)))"
    by (simp only: unsigned_ucast_eq unsigned_take_bit_eq unat_drop_bit_eq flip: take_bit_eq_mask)
       simp
  also have "\<dots> = (unat w div 2 ^ k) mod 256"
    by (simp only: take_bit_take_bit take_bit_eq_mod drop_bit_eq_div) simp
  finally show ?thesis by (simp only: m)
qed

lemma chunk_bytes_Suc:
  "chunk_bytes (Suc n) w = ucast (drop_bit (8 * n) w AND 0xff) # chunk_bytes n w"
  by (simp add: chunk_bytes_def)

lemma bytes_val_chunk_bytes: "bytes_val (chunk_bytes n w) = unat w mod 256 ^ n"
proof (induction n)
  case 0
  show ?case by (simp add: chunk_bytes_def)
next
  case (Suc n)
  have "bytes_val (chunk_bytes (Suc n) w)
          = (unat w div 2 ^ (8 * n)) mod 256 * 256 ^ n + unat w mod 256 ^ n"
    by (simp add: chunk_bytes_Suc bytes_val_Cons unat_chunk_byte Suc.IH)
  also have "(2::nat) ^ (8 * n) = 256 ^ n" by (simp add: pow_256_eq mult.commute)
  finally have "bytes_val (chunk_bytes (Suc n) w)
          = 256 ^ n * ((unat w div 256 ^ n) mod 256) + unat w mod 256 ^ n"
    by (simp add: mult.commute)
  also have "\<dots> = unat w mod (256 ^ n * 256)" by (rule mod_mult2_eq [symmetric])
  finally show ?case by (simp add: mult.commute)
qed

lemma bytes_val_chunk_4: "bytes_val (chunk_bytes 4 w) = unat w"
  using unat_chunk_less [of w] by (simp add: bytes_val_chunk_bytes)

lemma bytes_val_concat_chunks:
  "bytes_val (concat (map (chunk_bytes 4) ws)) = outi_val ws"
proof (induction ws)
  case Nil
  show ?case by (simp add: outi_val_def)
next
  case (Cons w ws)
  have l: "length (concat (map (chunk_bytes 4) ws)) = 4 * length ws"
    by (induction ws) simp_all
  have "(256::nat) ^ (4 * length ws) = (256 ^ 4) ^ length ws" by (simp only: power_mult)
  then have p: "(256::nat) ^ (4 * length ws) = 4294967296 ^ length ws" by simp
  show ?case
    by (simp add: bytes_val_append bytes_val_chunk_4 l p Cons.IH outi_val_def digits_val_Cons)
qed

lemma b58tobin_serialize_eq:
  assumes "length outi = outisz binsz"
  shows "b58tobin_serialize binsz outi =
     (if bytesleft binsz \<noteq> 0
      then chunk_bytes (bytesleft binsz) (outi ! 0) @ concat (map (chunk_bytes 4) (drop 1 outi))
      else concat (map (chunk_bytes 4) outi))"
  using map_nth_from [of "chunk_bytes 4" outi 0] map_nth_from [of "chunk_bytes 4" outi 1]
  by (simp add: b58tobin_serialize_def assms [symmetric])

lemma bytes_val_b58tobin_serialize:
  assumes len: "length outi = outisz binsz" and nz: "binsz \<noteq> 0"
    and fit: "outi_val outi < 256 ^ binsz"
  shows "bytes_val (b58tobin_serialize binsz outi) = outi_val outi"
proof (cases "bytesleft binsz = 0")
  case True
  then show ?thesis by (simp add: b58tobin_serialize_eq [OF len] bytes_val_concat_chunks)
next
  case False
  have "((0 :: b58_almostmaxint_t) = 0 \<and> outi ! 0 AND zeromask binsz = 0)
          = (outi_val outi < 256 ^ binsz)"
    by (rule b58tobin_fit_tests [OF len nz]) simp
  with fit have "outi ! 0 AND zeromask binsz = 0" by simp
  moreover have "zeromask binsz = NOT (mask (bytesleft binsz * 8))"
    using False by (simp add: zeromask_def b58_almostmaxint_mask_eq)
  ultimately have "unat (outi ! 0) < 2 ^ (bytesleft binsz * 8)"
    by (simp add: and_high_bits_zero)
  then have small: "unat (outi ! 0) mod 256 ^ bytesleft binsz = unat (outi ! 0)"
    by (simp add: pow_256_eq)
  from len nz obtain w ws where outi: "outi = w # ws"
    using outisz_pos [of binsz] by (cases outi) auto
  have l: "length (concat (map (chunk_bytes 4) ws)) = 4 * length ws"
    by (induction ws) simp_all
  have "(256::nat) ^ (4 * length ws) = (256 ^ 4) ^ length ws" by (simp only: power_mult)
  then have p: "(256::nat) ^ (4 * length ws) = 4294967296 ^ length ws" by simp
  have ser: "b58tobin_serialize binsz outi
      = chunk_bytes (bytesleft binsz) (outi ! 0) @ concat (map (chunk_bytes 4) (drop 1 outi))"
    using False by (simp add: b58tobin_serialize_eq [OF len])
  have "bytes_val (b58tobin_serialize binsz outi)
      = unat (outi ! 0) * 4294967296 ^ length ws + outi_val ws"
    unfolding ser using small
    by (simp add: bytes_val_append bytes_val_chunk_bytes bytes_val_concat_chunks outi l p)
  then show ?thesis by (simp add: outi outi_val_def digits_val_Cons)
qed

subsection \<open>What \<open>b58tobin\<close> returns\<close>

lemma b58tobin_digits_valid:
  assumes nz: "binsz \<noteq> 0" and valid: "set (cstring b58) \<subseteq> set b58digits_ordered"
  shows "(\<exists>outi. b58tobin_digits binsz (drop (leading_ones (cstring b58)) (cstring b58))
              (replicate (outisz binsz) 0) = Some outi
            \<and> length outi = outisz binsz \<and> outi_val outi = b58_magnitude (cstring b58)
            \<and> b58_magnitude (cstring b58) < 256 ^ binsz)
       \<or> (b58tobin_digits binsz (drop (leading_ones (cstring b58)) (cstring b58))
              (replicate (outisz binsz) 0) = None
            \<and> 256 ^ binsz \<le> b58_magnitude (cstring b58))"
proof -
  let ?s = "drop (leading_ones (cstring b58)) (cstring b58)"
  let ?outi0 = "replicate (outisz binsz) (0 :: b58_almostmaxint_t)"
  have v0: "outi_val ?outi0 = 0" and l0: "length ?outi0 = outisz binsz"
    using b58tobin_digits_start [of binsz] by simp_all
  have sub: "set ?s \<subseteq> set b58digits_ordered"
    using valid set_drop_subset [of "leading_ones (cstring b58)" "cstring b58"] by blast
  have fit: "outi_val ?outi0 < 256 ^ binsz" by (simp add: v0)
  have acc: "b58_accumulate (outi_val ?outi0) ?s = b58_magnitude (cstring b58)"
    by (simp add: v0 b58_magnitude_accumulate [symmetric] b58_magnitude_drop_ones)
  from b58tobin_digits_inv [OF nz sub l0 fit] show ?thesis
    unfolding acc by auto
qed

text \<open>
  The outcome for a string of alphabet characters whose magnitude fits: the buffer
  receives the \<open>binsz\<close> bytes that denote the magnitude, and the last loop decides.
\<close>

lemma b58tobin_fits:
  assumes nz: "binsz \<noteq> 0" and valid: "set (cstring b58) \<subseteq> set b58digits_ordered"
    and fit: "b58_magnitude (cstring b58) < 256 ^ binsz"
  shows "\<exists>bytes. length bytes = binsz \<and> bytes_val bytes = b58_magnitude (cstring b58)
    \<and> b58tobin bin binsz b58 =
        (let (ok, sz) = b58tobin_count bytes 0 (b58tobin_zerocount (cstring b58)) binsz
         in if ok then (True, bytes @ drop binsz bin, sz + b58tobin_zerocount (cstring b58))
            else (False, bytes @ drop binsz bin, sz))"
proof -
  from b58tobin_digits_valid [OF nz valid] fit
  obtain outi where d: "b58tobin_digits binsz (drop (leading_ones (cstring b58)) (cstring b58))
              (replicate (outisz binsz) 0) = Some outi"
    and len: "length outi = outisz binsz" and val: "outi_val outi = b58_magnitude (cstring b58)"
    by auto
  let ?bytes = "b58tobin_serialize binsz outi"
  have "outi_val outi < 256 ^ binsz" using fit val by simp
  then have "bytes_val ?bytes = b58_magnitude (cstring b58)"
    using bytes_val_b58tobin_serialize [OF len nz] val by simp
  moreover have "length ?bytes = binsz" by simp
  moreover have "b58tobin bin binsz b58 =
        (let (ok, sz) = b58tobin_count ?bytes 0 (b58tobin_zerocount (cstring b58)) binsz
         in if ok then (True, ?bytes @ drop binsz bin, sz + b58tobin_zerocount (cstring b58))
            else (False, ?bytes @ drop binsz bin, sz))"
    using nz d by (simp add: b58tobin_def Let_def)
  ultimately show ?thesis by blast
qed


lemma b58tobin_count_cases:
  "(\<forall>b\<in>set bs. b = 0) \<and> b58tobin_count bs i zerocount sz = (True, sz - length bs)
   \<or> (\<exists>k<length bs. bs ! k \<noteq> 0 \<and> (\<forall>m<k. bs ! m = 0)
        \<and> b58tobin_count bs i zerocount sz = (\<not> zerocount > i + k, sz - k))"
proof (induction bs arbitrary: i sz)
  case Nil
  show ?case by simp
next
  case (Cons b bs)
  show ?case
  proof (cases "b = 0")
    case False
    then have "0 < length (b # bs) \<and> (b # bs) ! 0 \<noteq> 0 \<and> (\<forall>m<0. (b # bs) ! m = 0)
        \<and> b58tobin_count (b # bs) i zerocount sz = (\<not> zerocount > i + 0, sz - 0)"
      by simp
    then show ?thesis by blast
  next
    case True
    from Cons.IH [of "Suc i" "sz - 1"] show ?thesis
    proof
      assume "(\<forall>b\<in>set bs. b = 0)
          \<and> b58tobin_count bs (Suc i) zerocount (sz - 1) = (True, sz - 1 - length bs)"
      with True show ?thesis by simp
    next
      assume "\<exists>k<length bs. bs ! k \<noteq> 0 \<and> (\<forall>m<k. bs ! m = 0)
          \<and> b58tobin_count bs (Suc i) zerocount (sz - 1) = (\<not> zerocount > Suc i + k, sz - 1 - k)"
      then obtain k where k: "k < length bs" "bs ! k \<noteq> 0" "\<forall>m<k. bs ! m = 0"
        and c: "b58tobin_count bs (Suc i) zerocount (sz - 1) = (\<not> zerocount > Suc i + k, sz - 1 - k)"
        by blast
      have z: "\<forall>m<Suc k. (b # bs) ! m = 0"
      proof (intro allI impI)
        fix m assume "m < Suc k"
        with k(3) True show "(b # bs) ! m = 0" by (cases m) simp_all
      qed
      have "Suc k < length (b # bs) \<and> (b # bs) ! Suc k \<noteq> 0 \<and> (\<forall>m<Suc k. (b # bs) ! m = 0)
        \<and> b58tobin_count (b # bs) i zerocount sz = (\<not> zerocount > i + Suc k, sz - Suc k)"
        using k(1,2) z c True by simp
      then show ?thesis by blast
    qed
  qed
qed

subsection \<open>The string that \<open>b58enc\<close> produces\<close>

lemma b58_digit_alphabet: "k < 58 \<Longrightarrow> b58_digit (b58digits_ordered ! k) = k"
  by (simp add: b58_digit_def alphabet_lookup)

lemma map_b58_digit_alphabet:
  "\<forall>d\<in>set xs. unat d < 58 \<Longrightarrow>
   map b58_digit (map (\<lambda>d. b58digits_ordered ! unat d) xs) = map unat xs"
  by (induction xs) (simp_all add: b58_digit_alphabet)

lemma map_b58_digit_replicate: "map b58_digit (replicate n (CHR ''1'')) = replicate n 0"
  by (simp add: b58_digit_one)

lemma buf_val_dropWhile: "buf_val (dropWhile (\<lambda>d. d = 0) buf) = buf_val buf"
proof -
  have "buf_val (takeWhile (\<lambda>d. d = 0) buf @ dropWhile (\<lambda>d. d = 0) buf)
          = buf_val (dropWhile (\<lambda>d. d = 0) buf)"
    using buf_val_zeros [of "takeWhile (\<lambda>d. d = 0) buf"]
    by (simp add: buf_val_def digits_val_append del: takeWhile_dropWhile_id)
       (auto dest: set_takeWhileD)
  then show ?thesis by simp
qed

lemma b58_magnitude_b58enc_string: "b58_magnitude (b58enc_string data) = bytes_val data"
proof -
  let ?buf = "b58enc_buf data"
  have dig: "\<forall>d\<in>set (dropWhile (\<lambda>d. d = 0) ?buf). unat d < 58"
    using b58enc_buf_props [of data] by (auto dest: set_dropWhileD)
  have "map b58_digit (b58enc_string data)
      = replicate (length (takeWhile (\<lambda>b. b = 0) data)) 0 @ map unat (dropWhile (\<lambda>d. d = 0) ?buf)"
    by (simp only: b58enc_string_def map_append map_b58_digit_alphabet [OF dig]
        map_b58_digit_replicate)
  then have "b58_magnitude (b58enc_string data) = buf_val (dropWhile (\<lambda>d. d = 0) ?buf)"
    by (simp add: b58_magnitude_def buf_val_def digits_val_append)
  then show ?thesis
    using b58enc_buf_props [of data] by (simp add: buf_val_dropWhile)
qed

lemma alphabet_nth_one: "k < 58 \<Longrightarrow> (b58digits_ordered ! k = CHR ''1'') = (k = 0)"
  using nth_eq_iff_index_eq [OF distinct_b58digits_ordered, of k 0]
  by (simp add: length_b58digits_ordered b58digits_ordered_0)

lemma leading_ones_replicate:
  "leading_ones (replicate n (CHR ''1'') @ s) = n + leading_ones s"
  by (induction n) (simp_all add: leading_ones_def)

lemma leading_ones_map_nonzero:
  assumes "ds = [] \<or> f (hd ds) \<noteq> CHR ''1''"
  shows "leading_ones (map f ds) = 0"
  using assms by (cases ds) (simp_all add: leading_ones_def)

lemma leading_ones_b58enc_string:
  "leading_ones (b58enc_string data) = length (takeWhile (\<lambda>b. b = 0) data)"
proof -
  define ds where "ds = dropWhile (\<lambda>d. d = 0) (b58enc_buf data)"
  have "ds = [] \<or> b58digits_ordered ! unat (hd ds) \<noteq> CHR ''1''"
  proof (cases "ds = []")
    case True
    then show ?thesis by simp
  next
    case False
    then have "\<not> hd ds = 0"
      unfolding ds_def by (rule hd_dropWhile)
    then have nz: "unat (hd ds) \<noteq> 0" by (simp add: unat_eq_0)
    from False have "hd ds \<in> set ds" by (rule hd_in_set)
    then have "hd ds \<in> set (b58enc_buf data)" unfolding ds_def by (rule set_dropWhileD)
    then have "unat (hd ds) < 58" using b58enc_buf_props [of data] by blast
    then have "(b58digits_ordered ! unat (hd ds) = CHR ''1'') = (unat (hd ds) = 0)"
      by (rule alphabet_nth_one)
    with nz have "b58digits_ordered ! unat (hd ds) \<noteq> CHR ''1''" by (simp only: simp_thms)
    then show ?thesis by (rule disjI2)
  qed
  then have "leading_ones (map (\<lambda>d. b58digits_ordered ! unat d) ds) = 0"
    by (rule leading_ones_map_nonzero)
  then show ?thesis
    unfolding b58enc_string_def leading_ones_replicate ds_def by simp
qed

lemma b58enc_True_D:
  assumes "b58enc b58 cap data = (True, out, sz)"
  shows "cstring out = b58enc_string data" and "sz = length (b58enc_string data) + 1"
    and "sz \<le> cap"
proof -
  from assms have c: "\<not> cap \<le> length (b58enc_string data)"
    by (auto simp: b58enc_outcome split: if_splits)
  then have "b58enc b58 cap data = (True,
      b58enc_string data @ [CHR 0x00] @ drop (length (b58enc_string data) + 1) b58,
      length (b58enc_string data) + 1)"
    by (simp only: b58enc_outcome if_False)
  then have "(True, out, sz) = (True,
      b58enc_string data @ [CHR 0x00] @ drop (length (b58enc_string data) + 1) b58,
      length (b58enc_string data) + 1)"
    by (simp only: assms)
  then have out: "out = b58enc_string data @ [CHR 0x00] @ drop (length (b58enc_string data) + 1) b58"
    and sz: "sz = length (b58enc_string data) + 1"
    by (simp_all only: prod.inject)
  show "cstring out = b58enc_string data"
    unfolding out by (rule cstring_terminated) (rule b58enc_string_no_NUL)
  show "sz = length (b58enc_string data) + 1" by (rule sz)
  show "sz \<le> cap" using c sz by simp
qed

lemma length_b58enc_string_le: "length (b58enc_string data) \<le> length data * 138 div 100 + 1"
proof -
  define zc where "zc = length (takeWhile (\<lambda>b. b = 0) data)"
  define n where "n = length data"
  have zn: "zc \<le> n" unfolding zc_def n_def by (rule length_takeWhile_le)
  have "length (b58enc_string data) \<le> zc + length (b58enc_buf data)"
    by (simp add: length_b58enc_string zc_def)
  also have "\<dots> = zc + ((n - zc) * 138 div 100 + 1)"
    using b58enc_buf_props [of data] by (simp add: zc_def n_def)
  also have "\<dots> \<le> n * 138 div 100 + 1"
  proof -
    from zn obtain m where n: "n = zc + m" by (auto simp: le_iff_add)
    have "zc + m * 138 div 100 = (zc * 100 + m * 138) div 100" by simp
    also have "\<dots> \<le> ((zc + m) * 138) div 100"
      by (rule div_le_mono) (simp add: algebra_simps)
    finally show ?thesis by (simp add: n)
  qed
  finally show ?thesis by (simp add: n_def)
qed

subsection \<open>Decoding what the encoder produced\<close>

lemma bytes_val_inj:
  assumes "length xs = length ys" and "bytes_val xs = bytes_val ys"
  shows "xs = ys"
proof -
  have "map unat xs = map unat ys"
    using assms by (intro digits_val_inj [where B = 256]) (simp_all add: bytes_val_def unat_byte_less)
  moreover have "inj (unat :: uint8_t \<Rightarrow> nat)" by (rule injI) (rule unsigned_word_eqI)
  ultimately show ?thesis by (simp add: inj_map_eq_map)
qed

lemma leading_zeros_index:
  assumes "k < length bs" and "bs ! k \<noteq> 0" and "\<forall>m<k. bs ! m = 0"
  shows "length (takeWhile (\<lambda>b. b = 0) bs) = k"
proof -
  have "takeWhile (\<lambda>b. b = 0) bs = take k bs"
    using assms by (intro takeWhile_eq_take_P_nth) simp_all
  with assms(1) show ?thesis by simp
qed

lemma leading_zeros_all:
  "\<forall>b\<in>set bs. b = 0 \<Longrightarrow> length (takeWhile (\<lambda>b. b = 0) bs) = length bs"
  by (induction bs) simp_all

lemma b58tobin_b58enc_exact:
  assumes ne: "data \<noteq> []" and enc: "b58enc b58 cap data = (True, out, sz)"
    and small: "length (takeWhile (\<lambda>b. b = 0) data) < 4294967296"
  shows "b58tobin bin (length data) out = (True, data @ drop (length data) bin, length data)"
proof -
  define n where "n = length data"
  define zc where "zc = length (takeWhile (\<lambda>b. b = 0) data)"
  have cs: "cstring out = b58enc_string data" using enc by (rule b58enc_True_D)
  have nz: "n \<noteq> 0" using ne by (simp add: n_def)
  have valid: "set (cstring out) \<subseteq> set b58digits_ordered"
    unfolding cs by (rule b58enc_string_alphabet)
  have mag: "b58_magnitude (cstring out) = bytes_val data"
    unfolding cs by (rule b58_magnitude_b58enc_string)
  have fit: "b58_magnitude (cstring out) < 256 ^ n"
    unfolding mag n_def by (rule bytes_val_less)
  have "leading_ones (cstring out) = zc"
    unfolding cs zc_def by (rule leading_ones_b58enc_string)
  then have lo: "b58tobin_zerocount (cstring out) = zc"
    using small by (simp add: b58tobin_zerocount_small zc_def)
  from b58tobin_fits [OF nz valid fit, of bin]
  obtain bytes where bl: "length bytes = n" and bv: "bytes_val bytes = b58_magnitude (cstring out)"
    and res: "b58tobin bin n out =
        (let (ok, sz) = b58tobin_count bytes 0 (b58tobin_zerocount (cstring out)) n
         in if ok then (True, bytes @ drop n bin, sz + b58tobin_zerocount (cstring out))
            else (False, bytes @ drop n bin, sz))"
    by blast
  have bytes: "bytes = data"
    using bl bv by (intro bytes_val_inj) (simp_all add: n_def mag)
  have zn: "zc \<le> n" unfolding zc_def n_def by (rule length_takeWhile_le)
  have cnt: "b58tobin_count data 0 zc n = (True, n - zc)"
    using b58tobin_count_cases [of data 0 zc n]
  proof
    assume a: "(\<forall>b\<in>set data. b = 0) \<and> b58tobin_count data 0 zc n = (True, n - length data)"
    then have "zc = n" unfolding zc_def n_def by (simp add: leading_zeros_all)
    with a show ?thesis by (simp add: n_def)
  next
    assume "\<exists>k<length data. data ! k \<noteq> 0 \<and> (\<forall>m<k. data ! m = 0)
        \<and> b58tobin_count data 0 zc n = (\<not> zc > 0 + k, n - k)"
    then obtain k where k: "k < length data" "data ! k \<noteq> 0" "\<forall>m<k. data ! m = 0"
      and c: "b58tobin_count data 0 zc n = (\<not> zc > 0 + k, n - k)" by blast
    from k have "zc = k" unfolding zc_def by (rule leading_zeros_index)
    with c show ?thesis by simp
  qed
  show ?thesis
    using res zn unfolding bytes lo cnt n_def [symmetric] by simp
qed


subsection \<open>Strings with a long run of \<open>'1'\<close> characters\<close>

lemma leading_ones_replicate_only: "leading_ones (replicate n (CHR ''1'')) = n"
  using leading_ones_replicate [of n "[]"] by (simp add: leading_ones_def)

lemma b58tobin_all_ones:
  assumes "cstring b58 = replicate n (CHR ''1'')" and "binsz \<noteq> 0"
  shows "b58tobin bin binsz b58
     = (True, replicate binsz 0 @ drop binsz bin, n mod 4294967296)"
proof -
  have "b58tobin_count (replicate binsz 0) 0 (n mod 4294967296) binsz
          = (True, binsz - length (replicate binsz (0::uint8_t)))"
    by (rule b58tobin_count_all_zero) simp
  then show ?thesis
    using assms
    by (simp add: b58tobin_def b58tobin_zerocount_mod leading_ones_replicate_only
        b58tobin_serialize_zeros)
qed

lemma cstring_ones_terminated:
  "cstring (replicate n (CHR ''1'') @ [CHR 0x00]) = replicate n (CHR ''1'')"
  using cstring_terminated [of "replicate n (CHR ''1'')" "[]"] by simp








lemma b58tobin_zeros_string:
  "n \<noteq> 0 \<Longrightarrow> b58tobin [] n (replicate n (CHR ''1'') @ [CHR 0x00])
     = (True, replicate n 0, n mod 4294967296)"
  using b58tobin_all_ones [OF cstring_ones_terminated, where binsz = n and bin = "[]"] by simp


lemma b58enc_string_zeros: "b58enc_string (replicate n 0) = replicate n (CHR ''1'')"
  by (simp add: b58enc_string_def b58enc_buf_def)



lemma b58enc_zeros:
  "n < cap \<Longrightarrow>
   b58enc [] cap (replicate n 0) = (True, replicate n (CHR ''1'') @ [CHR 0x00], n + 1)"
  by (simp add: b58enc_outcome b58enc_string_zeros)



subsection \<open>Round trip\<close>

text \<open>
  C1, as the code has it. For every byte sequence \<open>data\<close> that is not empty: \<open>b58enc\<close>
  succeeds when the capacity is at least \<open>length data * 138 / 100 + 2\<close>, and whenever
  \<open>b58enc\<close> has succeeded and \<open>data\<close> begins with fewer than \<open>2\<^sup>3\<^sup>2\<close> bytes \<open>0x00\<close>,
  \<open>b58tobin\<close> applied to the string it stored, with a buffer of \<open>length data\<close> bytes,
  returns true, fills the buffer with exactly \<open>data\<close> and leaves
  \<open>*binszp = length data\<close>.
\<close>

theorem b58tobin_b58enc_roundtrip:
  assumes "data \<noteq> []"
  shows "(length data * 138 div 100 + 2 \<le> cap \<longrightarrow> fst (b58enc b58 cap data))
    \<and> (length (takeWhile (\<lambda>b. b = 0) data) < 2 ^ 32 \<and> b58enc b58 cap data = (True, out, sz) \<longrightarrow>
        b58tobin bin (length data) out = (True, data @ drop (length data) bin, length data))"
proof (intro conjI impI)
  assume "length data * 138 div 100 + 2 \<le> cap"
  with length_b58enc_string_le [of data] have "\<not> cap \<le> length (b58enc_string data)" by simp
  then show "fst (b58enc b58 cap data)" by (simp add: b58enc_outcome)
next
  assume a: "length (takeWhile (\<lambda>b. b = 0) data) < 2 ^ 32 \<and> b58enc b58 cap data = (True, out, sz)"
  then have enc: "b58enc b58 cap data = (True, out, sz)" ..
  from a have small: "length (takeWhile (\<lambda>b. b = 0) data) < 4294967296" by simp
  from assms enc small show "b58tobin bin (length data) out
      = (True, data @ drop (length data) bin, length data)"
    by (rule b58tobin_b58enc_exact)
qed

theorem b58tobin_b58enc_roundtrip_witness:
  "[0, 0xFF, 0x80] \<noteq> ([] :: uint8_t list)
   \<and> length [0, 0xFF, 0x80 :: uint8_t] * 138 div 100 + 2 \<le> 6
   \<and> length (takeWhile (\<lambda>b. b = 0) [0, 0xFF, 0x80 :: uint8_t]) < 2 ^ 32
   \<and> b58enc ''??????'' 6 [0, 0xFF, 0x80] = (True, ''1LSj'' @ [CHR 0x00, CHR ''?''], 5)
   \<and> b58tobin [7, 7, 7, 7] (length [0, 0xFF, 0x80 :: uint8_t]) (''1LSj'' @ [CHR 0x00, CHR ''?''])
       = (True, [0, 0xFF, 0x80, 7], 3)"
proof -
  have a: "[0, 0xFF, 0x80] \<noteq> ([] :: uint8_t list)" by simp
  have b: "length [0, 0xFF, 0x80 :: uint8_t] * 138 div 100 + 2 \<le> 6" by simp
  have c: "b58enc ''??????'' 6 [0, 0xFF, 0x80] = (True, ''1LSj'' @ [CHR 0x00, CHR ''?''], 5)"
    by code_simp
  have d: "length (takeWhile (\<lambda>b. b = 0) [0, 0xFF, 0x80 :: uint8_t]) < 2 ^ 32" by simp
  from b58tobin_b58enc_roundtrip [OF a, of 6 "''??????''" "''1LSj'' @ [CHR 0x00, CHR ''?'']" 5 "[7, 7, 7, 7]"]
    a b c d
  show ?thesis by simp
qed

text \<open>
  C1, as the specification states it, fails for the empty sequence: \<open>b58enc\<close> stores the
  empty string, and \<open>b58tobin\<close> with a capacity of 0, the length of the input, returns
  false by its first test. It also fails for the sequence of \<open>2\<^sup>3\<^sup>2\<close> bytes \<open>0x00\<close>:
  \<open>b58enc\<close> stores \<open>2\<^sup>3\<^sup>2\<close> characters \<open>'1'\<close>, on which the 32-bit \<open>zerocount\<close> of
  \<open>b58tobin\<close> wraps to 0, and \<open>b58tobin\<close> returns true with \<open>*binszp = 0\<close>, not
  \<open>2\<^sup>3\<^sup>2\<close>.
\<close>

theorem b58tobin_rejects_capacity_zero:
  "b58enc ''?'' 1 [] = (True, [CHR 0x00], 1)
   \<and> b58tobin [] (length ([] :: uint8_t list)) [CHR 0x00] = (False, [], 0)
   \<and> b58enc [] 4294967297 (replicate 4294967296 0)
       = (True, replicate 4294967296 (CHR ''1'') @ [CHR 0x00], 4294967297)
   \<and> b58tobin [] (length (replicate 4294967296 (0 :: uint8_t)))
         (replicate 4294967296 (CHR ''1'') @ [CHR 0x00])
       = (True, replicate 4294967296 0, 0)"
proof (intro conjI)
  show "b58enc ''?'' 1 [] = (True, [CHR 0x00], 1)" by code_simp
  show "b58tobin [] (length ([] :: uint8_t list)) [CHR 0x00] = (False, [], 0)" by code_simp
  show "b58enc [] 4294967297 (replicate 4294967296 0)
       = (True, replicate 4294967296 (CHR ''1'') @ [CHR 0x00], 4294967297)"
    using b58enc_zeros [of 4294967296 4294967297] by simp
  show "b58tobin [] (length (replicate 4294967296 (0 :: uint8_t)))
         (replicate 4294967296 (CHR ''1'') @ [CHR 0x00])
       = (True, replicate 4294967296 0, 0)"
    using b58tobin_zeros_string [of 4294967296] by simp
qed

subsection \<open>Leading zeros\<close>





subsection \<open>The return value of \<open>base58_decode\<close>\<close>








end
